theory Spec2Isabelle
  imports Complex_Main
begin

unbundle bit_operations_syntax

section \<open>k-means clustering (src/kmeans/omp_kmeans.c)\<close>

text \<open>
  The C function \<open>omp_kmeans\<close> is embedded as state-passing functions over a record that
  holds every array the function reads or writes. The modelling choices are:
  \<^item> \<open>float\<close> values are real numbers: the arithmetic and the comparisons of the model are
    exact, and no NaN or infinity exists;
  \<^item> the counts \<open>numCoords\<close>, \<open>numObjs\<close> and \<open>numClusters\<close> are natural numbers (a
    negative count describes no array), the other C \<open>int\<close> variables (\<open>index\<close>, \<open>delta\<close>, \<open>loop\<close>, \<open>magnitude\<close>, the entries of
    \<open>membership\<close> and of the counters) are integers; a conversion or a product that leaves
    the 32-bit range is a fault of the model;
  \<^item> \<open>clusters\<close> and \<open>newClusters\<close> are lists of rows; the two per-thread accumulators
    are flat, as they are allocated: \<open>local_newClusterSize[tid][index]\<close> is the cell
    \<open>tid * numClusters + index\<close> of one block of \<open>nthreads * numClusters\<close> counters, and
    \<open>local_newClusters[tid][index]\<close> the same cell of one block of row pointers. A cell
    beyond the block is the fault \<open>OutOfBounds\<close>;
  \<^item> the arrays \<open>objects\<close> and \<open>membership\<close> of the caller are lists; the theorems that
    depend on a read of them assume the sizes the parameters declare. Only the accesses
    to the accumulators, whose index the code computes, are checked against the bounds;
  \<^item> the number of threads and the thread that executes each iteration of the parallel
    loop are parameters (\<open>nthreads\<close>, \<open>sched\<close>); the parallel loop is executed in index
    order, and a schedule in which two threads write one cell, a data race in C, is not
    told apart from the others;
  \<^item> the allocations are assumed to succeed, and the \<open>free\<close> calls and the debug timing
    are left out (\<open>is_perform_atomic\<close> is used by the \<open>free\<close> calls only).
\<close>

datatype fault = OutOfBounds | FloatToIntUndefined | SignedOverflow

record kenv =
  numCoords :: nat
  numObjs :: nat
  numClusters :: nat
  threshold :: real
  nthreads :: nat
  sched :: "nat \<Rightarrow> nat"

record kstate =
  objects :: "real list list"
  clusters :: "real list list"
  membership :: "int list"
  newClusterSize :: "int list"
  newClusters :: "real list list"
  local_newClusterSize :: "int list"
  local_newClusters :: "real list list"
  delta :: int

text \<open>\<open>euclid_dist_2\<close> (lines 28-42).\<close>

definition euclid_dist_2 :: "nat \<Rightarrow> real list \<Rightarrow> real list \<Rightarrow> real" where
  "euclid_dist_2 numdims coord1 coord2 =
     fold (\<lambda>i ans. ans + (coord1 ! i - coord2 ! i) * (coord1 ! i - coord2 ! i)) [0..<numdims] 0"

text \<open>
  \<open>find_nearest_cluster\<close> (lines 44-67). The loop variable is \<open>i\<close>, the centre scanned.
  \<open>omp_kmeans\<close> does not call this function.
\<close>

definition find_nearest_cluster :: "nat \<Rightarrow> nat \<Rightarrow> real list \<Rightarrow> real list list \<Rightarrow> int" where
  "find_nearest_cluster numClusters' numCoords' object clusters' =
     fst (fold (\<lambda>i (index, min_dist).
                  let dist = euclid_dist_2 numCoords' object (clusters' ! i)
                  in if dist < min_dist then (int i, dist) else (index, min_dist))
               [1..<numClusters']
               (0, euclid_dist_2 numCoords' object (clusters' ! 0)))"

text \<open>
  The scan inlined in \<open>omp_kmeans\<close> (lines 166-179) for the point \<open>i\<close>. The loop variable
  is \<open>j\<close>, and line 177 stores \<open>i\<close>, the number of the point. The inner loop of lines
  170-174 computes what \<open>euclid_dist_2\<close> computes.
\<close>

definition assign_index :: "kenv \<Rightarrow> kstate \<Rightarrow> nat \<Rightarrow> int" where
  "assign_index env st i =
     (let coord1 = objects st ! i
      in fst (fold (\<lambda>j (index, min_dist).
                      let dist = euclid_dist_2 (numCoords env) coord1 (clusters st ! j)
                      in if dist < min_dist then (int i, dist) else (index, min_dist))
                   [1..<numClusters env]
                   (0, euclid_dist_2 (numCoords env) coord1 (clusters st ! 0))))"

text \<open>The body of the parallel loop for the point \<open>i\<close> (lines 166-186).\<close>

definition assign_point :: "kenv \<Rightarrow> nat \<Rightarrow> kstate \<Rightarrow> fault + kstate" where
  "assign_point env i st =
     (let index = assign_index env st i;
          tid = sched env i;
          st1 = st\<lparr>delta := delta st + (if (membership st ! i) XOR index = 0 then 1 else 0),
                   membership := (membership st)[i := index]\<rparr>;
          cell = tid * numClusters env + nat index
      in if nthreads env * numClusters env \<le> cell then Inl OutOfBounds
         else Inr (st1\<lparr>local_newClusterSize :=
                          (local_newClusterSize st1)[cell := local_newClusterSize st1 ! cell + 1],
                        local_newClusters :=
                          (local_newClusters st1)[cell :=
                             fold (\<lambda>j row. row[j := row ! j + objects st1 ! i ! j])
                                  [0..<numCoords env] (local_newClusters st1 ! cell)]\<rparr>))"

text \<open>A counting loop whose body may fault: the first fault ends it.\<close>

fun for_each :: "(nat \<Rightarrow> 's \<Rightarrow> fault + 's) \<Rightarrow> nat list \<Rightarrow> 's \<Rightarrow> fault + 's" where
  "for_each f [] s = Inr s"
| "for_each f (x # xs) s = (case f x s of Inl e \<Rightarrow> Inl e | Inr s' \<Rightarrow> for_each f xs s')"

text \<open>The parallel loop (lines 156-189).\<close>

definition assign_phase :: "kenv \<Rightarrow> kstate \<Rightarrow> fault + kstate" where
  "assign_phase env st = for_each (assign_point env) [0..<numObjs env] st"

text \<open>The array reduction of the main thread (lines 192-201), for centre \<open>i\<close> and thread \<open>j\<close>.\<close>

definition reduce_cell :: "kenv \<Rightarrow> nat \<Rightarrow> nat \<Rightarrow> kstate \<Rightarrow> kstate" where
  "reduce_cell env i j st =
     (let c = j * numClusters env + i;
          st1 = st\<lparr>newClusterSize :=
                     (newClusterSize st)[i := newClusterSize st ! i + local_newClusterSize st ! c],
                   local_newClusterSize := (local_newClusterSize st)[c := 0]\<rparr>
      in fold (\<lambda>k s. s\<lparr>newClusters :=
                          (newClusters s)[i := (newClusters s ! i)
                             [k := newClusters s ! i ! k + local_newClusters s ! c ! k]],
                        local_newClusters :=
                          (local_newClusters s)[c := (local_newClusters s ! c)[k := 0]]\<rparr>)
              [0..<numCoords env] st1)"

definition reduce_phase :: "kenv \<Rightarrow> kstate \<Rightarrow> kstate" where
  "reduce_phase env st =
     fold (\<lambda>i s. fold (reduce_cell env i) [0..<nthreads env] s) [0..<numClusters env] st"

text \<open>The replacement of the centres (lines 204-211).\<close>

definition update_coord :: "nat \<Rightarrow> nat \<Rightarrow> kstate \<Rightarrow> kstate" where
  "update_coord i j st =
     (let st1 = (if 1 < newClusterSize st ! i
                 then st\<lparr>clusters := (clusters st)[i := (clusters st ! i)
                            [j := newClusters st ! i ! j / real_of_int (newClusterSize st ! i)]]\<rparr>
                 else st)
      in st1\<lparr>newClusters := (newClusters st1)[i := (newClusters st1 ! i)[j := 0]]\<rparr>)"

definition update_center :: "kenv \<Rightarrow> nat \<Rightarrow> kstate \<Rightarrow> kstate" where
  "update_center env i st =
     (let st1 = fold (update_coord i) [0..<numCoords env] st
      in st1\<lparr>newClusterSize := (newClusterSize st1)[i := 0]\<rparr>)"

definition update_phase :: "kenv \<Rightarrow> kstate \<Rightarrow> kstate" where
  "update_phase env st = fold (update_center env) [0..<numClusters env] st"

text \<open>
  One pass of the body of the \<open>do\<close> loop (lines 154-212). \<open>delta\<close> and \<open>magnitude\<close> are
  C \<open>int\<close>: a product outside the 32-bit range is undefined in C.
\<close>

definition iteration :: "kenv \<Rightarrow> int \<Rightarrow> kstate \<Rightarrow> fault + kstate" where
  "iteration env magnitude st =
     (case assign_phase env (st\<lparr>delta := 0\<rparr>) of
        Inl e \<Rightarrow> Inl e
      | Inr st1 \<Rightarrow>
          let st2 = update_phase env (reduce_phase env st1);
              d = delta st2 * magnitude
          in if d < - (2 ^ 31) \<or> 2 ^ 31 \<le> d then Inl SignedOverflow
             else Inr (st2\<lparr>delta := d\<rparr>))"

text \<open>
  The \<open>do ... while (delta > numObjs && loop++ < 500)\<close> loop (lines 153-214). The result
  is the number of passes executed, and either the fault or the final value of \<open>loop\<close>
  with the final state. \<open>loop++\<close> is evaluated only when \<open>delta > numObjs\<close> holds.
\<close>

function omp_kmeans_loop :: "kenv \<Rightarrow> int \<Rightarrow> int \<Rightarrow> kstate \<Rightarrow> nat \<times> (fault + int \<times> kstate)" where
  "omp_kmeans_loop env magnitude loop st =
     (case iteration env magnitude st of
        Inl e \<Rightarrow> (1, Inl e)
      | Inr st' \<Rightarrow>
          if int (numObjs env) < delta st'
          then (if loop < 500
                then apfst Suc (omp_kmeans_loop env magnitude (loop + 1) st')
                else (1, Inr (loop + 1, st')))
          else (1, Inr (loop, st')))"
  by pat_completeness auto
termination
  by (relation "measure (\<lambda>(env, magnitude, loop, st). nat (500 - loop))") auto

text \<open>
  \<open>(int)(1.0 / threshold)\<close> (line 85): the conversion truncates towards zero, and it is
  undefined in C when the truncated value is not an \<open>int\<close> (also for \<open>threshold = 0\<close>).
\<close>

definition trunc_int :: "real \<Rightarrow> int" where
  "trunc_int x = (if 0 \<le> x then \<lfloor>x\<rfloor> else \<lceil>x\<rceil>)"

definition magnitude_of :: "real \<Rightarrow> fault + int" where
  "magnitude_of t =
     (if t = 0 \<or> trunc_int (1 / t) < - (2 ^ 31) \<or> 2 ^ 31 \<le> trunc_int (1 / t)
      then Inl FloatToIntUndefined else Inr (trunc_int (1 / t)))"

text \<open>
  The state at line 152: the centres are the first \<open>numClusters\<close> points (lines 99-109),
  every entry of the caller's \<open>membership\<close> buffer is -1 (line 112), and the accumulators
  are zero (lines 115-150).
\<close>

definition init_state :: "kenv \<Rightarrow> real list list \<Rightarrow> int list \<Rightarrow> kstate" where
  "init_state env objs memb =
     \<lparr>objects = objs,
      clusters = map (\<lambda>i. map (\<lambda>j. objs ! i ! j) [0..<numCoords env]) [0..<numClusters env],
      membership = fold (\<lambda>i m. m[i := - 1]) [0..<numObjs env] memb,
      newClusterSize = replicate (numClusters env) 0,
      newClusters = replicate (numClusters env) (replicate (numCoords env) 0),
      local_newClusterSize = replicate (nthreads env * numClusters env) 0,
      local_newClusters = replicate (nthreads env * numClusters env) (replicate (numCoords env) 0),
      delta = 0\<rparr>"

text \<open>\<open>omp_kmeans\<close> (lines 72-236).\<close>

definition omp_kmeans :: "kenv \<Rightarrow> real list list \<Rightarrow> int list \<Rightarrow> nat \<times> (fault + int \<times> kstate)" where
  "omp_kmeans env objs memb =
     (case magnitude_of (threshold env) of
        Inl e \<Rightarrow> (0, Inl e)
      | Inr magnitude \<Rightarrow> omp_kmeans_loop env magnitude 0 (init_state env objs memb))"


subsection \<open>Example inputs\<close>

text \<open>
  Points on a line (\<open>numCoords = 1\<close>), and a state for the parallel loop in which the
  centres are the first points and the \<open>membership\<close> array holds given values. A call
  starts its pass from \<open>init_state\<close>; \<open>loop_head\<close> shows what the parallel loop counts
  when the \<open>membership\<close> values are not -1.
\<close>

definition two_points :: "real list list" where
  "two_points = [[0], [10]]"

definition three_points :: "real list list" where
  "three_points = [[0], [10], [10]]"

definition line_env :: "nat \<Rightarrow> nat \<Rightarrow> real \<Rightarrow> nat \<Rightarrow> (nat \<Rightarrow> nat) \<Rightarrow> kenv" where
  "line_env n k t p s =
     \<lparr>numCoords = 1, numObjs = n, numClusters = k, threshold = t, nthreads = p, sched = s\<rparr>"

definition loop_head :: "kenv \<Rightarrow> real list list \<Rightarrow> int list \<Rightarrow> kstate" where
  "loop_head env objs memb = (init_state env objs memb)\<lparr>membership := memb\<rparr>"


section \<open>Matrix multiplication (src/matrix_mul/omp)\<close>

text \<open>
  A matrix is the flat row-major array the C++ code receives; \<open>float\<close> values are real
  numbers. The parallel loops write disjoint cells (or add atomically) and are executed
  in index order. An index is computed in \<open>unsigned int\<close>, 32 bits wide: the model
  reduces it modulo \<open>2 ^ 32\<close>. The loop counters are not reduced: a counter exceeds
  \<open>2 ^ 32 - 1\<close> only for a dimension above \<open>2 ^ 32 - 128\<close>, whose matrices fit in no
  address space.
\<close>

definition u32 :: "nat \<Rightarrow> nat" where
  "u32 n = n mod 2 ^ 32"

text \<open>\<open>memset(result, 0, n * sizeof(float))\<close> on an array of \<open>float\<close>.\<close>

definition memset0 :: "nat \<Rightarrow> real list \<Rightarrow> real list" where
  "memset0 n C = take n (replicate (length C) 0) @ drop n C"

text \<open>The values of \<open>x\<close> in \<open>for (x = x0; x < n; x += step)\<close>; a step of 0 does not occur.\<close>

function steps :: "nat \<Rightarrow> nat \<Rightarrow> nat \<Rightarrow> nat list" where
  "steps x step n = (if x < n \<and> 0 < step then x # steps (x + step) step n else [])"
  by pat_completeness auto
termination
  by (relation "measure (\<lambda>(x, step, n). n - x)") auto

text \<open>
  The triple loop of \<open>matrix_mul.cpp\<close>, lines 81-89, which the function runs for a
  dimension below 256: the reference.
\<close>

definition naive_loops :: "real list \<Rightarrow> real list \<Rightarrow> nat \<Rightarrow> real list \<Rightarrow> real list" where
  "naive_loops A B sq_dimension C =
     fold (\<lambda>i. fold (\<lambda>j. fold (\<lambda>k C.
             C[u32 (i * sq_dimension + j) :=
                 C ! u32 (i * sq_dimension + j) + A ! u32 (i * sq_dimension + k) * B ! u32 (k * sq_dimension + j)])
           [0..<sq_dimension]) [0..<sq_dimension]) [0..<sq_dimension] C"

text \<open>
  \<open>matrix_multiplication_subblock\<close> (\<open>matrix_mul.cpp\<close>, lines 103-171). The pointers
  \<open>m1\<close>, \<open>m2\<close> and \<open>result\<close> are the arrays with the offsets \<open>o1\<close>, \<open>o2\<close> and \<open>o3\<close>. The
  \<open>count\<close> loop (lines 109-169) adds four products at a time while \<open>count + 4 < block_size\<close>.
\<close>

function subblock_count ::
  "real list \<Rightarrow> nat \<Rightarrow> real list \<Rightarrow> nat \<Rightarrow> nat \<Rightarrow> nat \<Rightarrow> nat \<Rightarrow> nat \<Rightarrow> nat \<Rightarrow> nat \<Rightarrow> real list \<Rightarrow> real list" where
  "subblock_count A o1 B o2 o3 block_size sq_dimension row col count C =
     (if count < block_size then
        (if count + 4 < block_size then
           subblock_count A o1 B o2 o3 block_size sq_dimension row col (count + 4)
             (C[o3 + u32 (row * sq_dimension + col) :=
                  C ! (o3 + u32 (row * sq_dimension + col)) +
                  (A ! (o1 + u32 (row * sq_dimension + count)) * B ! (o2 + u32 (count * sq_dimension + col))
                   + A ! (o1 + u32 (row * sq_dimension + count + 1)) * B ! (o2 + u32 ((count + 1) * sq_dimension + col))
                   + A ! (o1 + u32 (row * sq_dimension + count + 2)) * B ! (o2 + u32 ((count + 2) * sq_dimension + col))
                   + A ! (o1 + u32 (row * sq_dimension + count + 3)) * B ! (o2 + u32 ((count + 3) * sq_dimension + col)))])
         else
           subblock_count A o1 B o2 o3 block_size sq_dimension row col (count + 1)
             (C[o3 + u32 (row * sq_dimension + col) :=
                  C ! (o3 + u32 (row * sq_dimension + col)) +
                  A ! (o1 + u32 (row * sq_dimension + count)) * B ! (o2 + u32 (count * sq_dimension + col))]))
      else C)"
  by pat_completeness auto
termination
  by (relation "measure (\<lambda>(A, o1, B, o2, o3, block_size, sq_dimension, row, col, count, C). block_size - count)")
     auto

definition matrix_multiplication_subblock ::
  "real list \<Rightarrow> nat \<Rightarrow> real list \<Rightarrow> nat \<Rightarrow> nat \<Rightarrow> nat \<Rightarrow> nat \<Rightarrow> real list \<Rightarrow> real list" where
  "matrix_multiplication_subblock A o1 B o2 o3 block_size sq_dimension C =
     fold (\<lambda>col. fold (\<lambda>row. subblock_count A o1 B o2 o3 block_size sq_dimension row col 0)
                       [0..<block_size])
          [0..<block_size] C"

text \<open>
  \<open>while (sq_dimension % blk_range != 0) blk_range--\<close> (lines 46-47). The loop ends at
  1 at the latest; the value 0, at which C would divide by zero, is not reached from 128.
\<close>

fun blk_search :: "nat \<Rightarrow> nat \<Rightarrow> nat" where
  "blk_search sq_dimension blk_range =
     (if blk_range = 0 then 0
      else if sq_dimension mod blk_range \<noteq> 0 then blk_search sq_dimension (blk_range - 1)
      else blk_range)"

text \<open>The loops over the blocks (lines 58-76).\<close>

definition blocked_loops :: "real list \<Rightarrow> real list \<Rightarrow> nat \<Rightarrow> nat \<Rightarrow> real list \<Rightarrow> real list" where
  "blocked_loops A B sq_dimension blk_range C =
     fold (\<lambda>j. fold (\<lambda>i. fold (\<lambda>k.
             matrix_multiplication_subblock A (u32 (i * sq_dimension + k)) B (u32 (k * sq_dimension + j))
               (u32 (i * sq_dimension + j)) blk_range sq_dimension)
           (steps 0 blk_range sq_dimension)) (steps 0 blk_range sq_dimension)) (steps 0 blk_range sq_dimension) C"

text \<open>
  \<open>omp::matrix_multiplication\<close> of \<open>matrix_mul.cpp\<close> (lines 33-91). The size of the
  \<open>memset\<close> is computed in \<open>size_t\<close>.
\<close>

definition matrix_multiplication :: "real list \<Rightarrow> real list \<Rightarrow> real list \<Rightarrow> nat \<Rightarrow> real list" where
  "matrix_multiplication sq_matrix_1 sq_matrix_2 sq_matrix_result sq_dimension =
     (let C = memset0 (sq_dimension * sq_dimension) sq_matrix_result
      in if 256 \<le> sq_dimension
         then blocked_loops sq_matrix_1 sq_matrix_2 sq_dimension (blk_search sq_dimension 128) C
         else naive_loops sq_matrix_1 sq_matrix_2 sq_dimension C)"

text \<open>
  \<open>omp::matrix_multiplication\<close> of \<open>optimization/matrix_mul4.cc\<close> (lines 29-50). The
  size of the \<open>memset\<close> starts with the product \<open>sq_dimension * sq_dimension\<close> of two
  \<open>unsigned int\<close>.
\<close>

definition matrix_multiplication_mul4 :: "real list \<Rightarrow> real list \<Rightarrow> real list \<Rightarrow> nat \<Rightarrow> real list" where
  "matrix_multiplication_mul4 sq_matrix_1 sq_matrix_2 sq_matrix_result sq_dimension =
     (let block_size = 64;
          C = memset0 (u32 (sq_dimension * sq_dimension)) sq_matrix_result
      in fold (\<lambda>kk. fold (\<lambda>jj. fold (\<lambda>i. fold (\<lambda>k. fold (\<lambda>j C.
                 C[u32 (sq_dimension * i + j) :=
                     C ! u32 (sq_dimension * i + j) +
                     sq_matrix_1 ! u32 (sq_dimension * i + k) * sq_matrix_2 ! u32 (sq_dimension * k + j)])
               [jj..<min sq_dimension (jj + block_size)])
               [kk..<min sq_dimension (kk + block_size)])
               [0..<sq_dimension])
               (steps 0 block_size sq_dimension))
              (steps 0 block_size sq_dimension) C)"

text \<open>
  Following the spec's words: the entry \<open>C[i][j]\<close> of the product is the sum over \<open>k\<close>
  of \<open>A[i][k] * B[k][j]\<close>, and the product is the array of these entries.
\<close>

definition product_entry :: "real list \<Rightarrow> real list \<Rightarrow> nat \<Rightarrow> nat \<Rightarrow> nat \<Rightarrow> real" where
  "product_entry A B sq_dimension i j = (\<Sum>k\<in>{..<sq_dimension}. A ! (i * sq_dimension + k) * B ! (k * sq_dimension + j))"

definition matrix_product :: "real list \<Rightarrow> real list \<Rightarrow> nat \<Rightarrow> real list" where
  "matrix_product A B sq_dimension = map (\<lambda>p. product_entry A B sq_dimension (p div sq_dimension) (p mod sq_dimension)) [0..<sq_dimension * sq_dimension]"

text \<open>
  A device of the proofs: \<open>f\<close> adds \<open>D i j\<close> to the cell \<open>(i, j)\<close> of every \<open>m\<close> by \<open>m\<close>
  array and keeps its length.
\<close>

definition adds :: "nat \<Rightarrow> (real list \<Rightarrow> real list) \<Rightarrow> (nat \<Rightarrow> nat \<Rightarrow> real) \<Rightarrow> bool" where
  "adds m f D =
     (\<forall>C. length C = m * m \<longrightarrow>
        length (f C) = m * m \<and> (\<forall>i<m. \<forall>j<m. f C ! (i * m + j) = C ! (i * m + j) + D i j))"

section \<open>Properties of the k-means code\<close>

declare omp_kmeans_loop.simps [simp del]

subsection \<open>Loops and list updates\<close>

lemma xor_int_zero: "(a::int) XOR b = 0 \<longleftrightarrow> a = b"
  by (metis bit.xor_left_self xor.right_neutral)

lemma for_each_append:
  "for_each f (xs @ ys) s = (case for_each f xs s of Inl e \<Rightarrow> Inl e | Inr s' \<Rightarrow> for_each f ys s')"
  by (induction xs arbitrary: s) (auto split: sum.splits)

lemma for_each_invariant:
  assumes "for_each f xs s = Inr s'" and "P s"
    and "\<And>x t t'. x \<in> set xs \<Longrightarrow> P t \<Longrightarrow> f x t = Inr t' \<Longrightarrow> P t'"
  shows "P s'"
  using assms
proof (induction xs arbitrary: s)
  case Nil
  then show ?case by simp
next
  case (Cons x xs)
  from Cons.prems(1) obtain t where t: "f x s = Inr t" "for_each f xs t = Inr s'"
    by (auto split: sum.splits)
  have "P t" using Cons.prems(3)[of x s t] Cons.prems(2) t(1) by simp
  moreover have "P u'" if "y \<in> set xs" "P u" "f y u = Inr u'" for y u u'
    using Cons.prems(3)[of y u u'] that by simp
  ultimately show ?case using Cons.IH[OF t(2)] by blast
qed

lemma for_each_fault:
  assumes "for_each f xs s = Inl e"
    and "\<And>x t e'. f x t = Inl e' \<Longrightarrow> e' = OutOfBounds"
  shows "e = OutOfBounds"
  using assms
  by (induction xs arbitrary: s) (auto split: sum.splits)

lemma fold_frame:
  assumes "\<And>x t. g (f x t) = g t"
  shows "g (fold f xs s) = g s"
  by (induction xs arbitrary: s) (simp_all add: assms)

subsection \<open>What each phase leaves unchanged\<close>

lemma assign_point_frame:
  assumes "assign_point env i st = Inr st'"
  shows "objects st' = objects st" "clusters st' = clusters st"
    "newClusterSize st' = newClusterSize st" "newClusters st' = newClusters st"
  using assms by (auto simp: assign_point_def Let_def split: if_splits)

lemma assign_point_fault: "assign_point env i st = Inl e \<Longrightarrow> e = OutOfBounds"
  by (auto simp: assign_point_def Let_def split: if_splits)

lemma assign_point_delta:
  assumes "assign_point env i st = Inr st'"
  shows "delta st \<le> delta st' \<and> delta st' \<le> delta st + 1"
  using assms by (auto simp: assign_point_def Let_def split: if_splits)

lemma assign_phase_fault: "assign_phase env st = Inl e \<Longrightarrow> e = OutOfBounds"
  unfolding assign_phase_def by (erule for_each_fault) (rule assign_point_fault)

lemma assign_phase_frame:
  assumes "assign_phase env st = Inr st'"
  shows "objects st' = objects st \<and> clusters st' = clusters st"
  using assms unfolding assign_phase_def
  by (rule for_each_invariant[where P = "\<lambda>t. objects t = objects st \<and> clusters t = clusters st"])
     (auto dest: assign_point_frame)

lemma for_each_count:
  assumes "for_each f xs s = Inr s'"
    and "\<And>x t t'. f x t = Inr t' \<Longrightarrow> d t \<le> d t' \<and> d t' \<le> d t + (1::int)"
  shows "d s \<le> d s' \<and> d s' \<le> d s + int (length xs)"
  using assms(1)
proof (induction xs arbitrary: s)
  case Nil
  then show ?case by simp
next
  case (Cons x xs)
  from Cons.prems obtain t where t: "f x s = Inr t" "for_each f xs t = Inr s'"
    by (auto split: sum.splits)
  from assms(2)[OF t(1)] Cons.IH[OF t(2)] show ?case by simp
qed

lemma assign_phase_delta:
  assumes "assign_phase env st = Inr st'"
  shows "delta st \<le> delta st' \<and> delta st' \<le> delta st + int (numObjs env)"
  using for_each_count[OF assms[unfolded assign_phase_def], of delta] assign_point_delta
  by simp

lemma reduce_cell_frame:
  "objects (reduce_cell env i j st) = objects st"
  "clusters (reduce_cell env i j st) = clusters st"
  "delta (reduce_cell env i j st) = delta st"
  "membership (reduce_cell env i j st) = membership st"
  by (simp_all add: reduce_cell_def Let_def fold_frame)

lemma reduce_phase_frame:
  "objects (reduce_phase env st) = objects st"
  "clusters (reduce_phase env st) = clusters st"
  "delta (reduce_phase env st) = delta st"
  "membership (reduce_phase env st) = membership st"
  by (simp_all add: reduce_phase_def fold_frame reduce_cell_frame)

lemma update_coord_frame:
  "objects (update_coord i j st) = objects st"
  "delta (update_coord i j st) = delta st"
  "membership (update_coord i j st) = membership st"
  by (simp_all add: update_coord_def Let_def)

lemma update_phase_frame:
  "objects (update_phase env st) = objects st"
  "delta (update_phase env st) = delta st"
  "membership (update_phase env st) = membership st"
  by (simp_all add: update_phase_def update_center_def Let_def fold_frame update_coord_frame)

lemma iteration_objects:
  assumes "iteration env magnitude st = Inr st'"
  shows "objects st' = objects st"
  using assms
  by (auto simp: iteration_def Let_def update_phase_frame reduce_phase_frame
      split: sum.splits if_splits dest!: assign_phase_frame)

lemma iteration_delta:
  assumes "iteration env magnitude st = Inr st'" "assign_phase env (st\<lparr>delta := 0\<rparr>) = Inr st1"
  shows "delta st' = delta st1 * magnitude"
  using assms
  by (auto simp: iteration_def Let_def update_phase_frame reduce_phase_frame
      split: sum.splits if_splits)

lemma loop_objects:
  "omp_kmeans_loop env magnitude loop st = (n, Inr (l, st')) \<Longrightarrow> objects st' = objects st"
proof (induction env magnitude loop st arbitrary: n rule: omp_kmeans_loop.induct)
  case (1 env magnitude loop st)
  show ?case
  proof (cases "iteration env magnitude st")
    case (Inl e)
    with "1.prems" show ?thesis by (simp add: omp_kmeans_loop.simps[of env magnitude loop st])
  next
    case (Inr t)
    note it = iteration_objects[OF Inr]
    show ?thesis
    proof (cases "int (numObjs env) < delta t \<and> loop < 500")
      case True
      then have eq: "omp_kmeans_loop env magnitude loop st =
          apfst Suc (omp_kmeans_loop env magnitude (loop + 1) t)"
        using Inr by (simp add: omp_kmeans_loop.simps[of env magnitude loop st])
      then obtain m where "omp_kmeans_loop env magnitude (loop + 1) t = (m, Inr (l, st'))"
        using "1.prems" by (cases "omp_kmeans_loop env magnitude (loop + 1) t") auto
      from "1.IH"[OF Inr _ _ this] True it show ?thesis by simp
    next
      case False
      then show ?thesis using Inr "1.prems" it
        by (auto simp: omp_kmeans_loop.simps[of env magnitude loop st] split: if_splits)
    qed
  qed
qed

lemma loop_passes_pos: "1 \<le> fst (omp_kmeans_loop env magnitude loop st)"
  by (subst omp_kmeans_loop.simps) (auto split: sum.splits)

lemma loop_passes_bound:
  "fst (omp_kmeans_loop env magnitude loop st) \<le> 1 + nat (500 - loop)"
proof (induction env magnitude loop st rule: omp_kmeans_loop.induct)
  case (1 env magnitude loop st)
  show ?case
  proof (cases "iteration env magnitude st")
    case (Inl e)
    then show ?thesis by (simp add: omp_kmeans_loop.simps[of env magnitude loop st])
  next
    case (Inr t)
    show ?thesis
    proof (cases "int (numObjs env) < delta t \<and> loop < 500")
      case True
      with "1.IH"[OF Inr] have "fst (omp_kmeans_loop env magnitude (loop + 1) t) \<le> 1 + nat (500 - (loop + 1))"
        by simp
      moreover have "nat (500 - loop) = Suc (nat (500 - (loop + 1)))" using True by linarith
      ultimately show ?thesis using True Inr
        by (simp add: omp_kmeans_loop.simps[of env magnitude loop st])
    next
      case False
      then show ?thesis using Inr
        by (auto simp: omp_kmeans_loop.simps[of env magnitude loop st])
    qed
  qed
qed

lemma nth_nth_update:
  "xs[i := (xs ! i)[j := v]] ! i' ! j' =
     (if i' = i \<and> j' = j \<and> i < length xs \<and> j < length (xs ! i) then v else xs ! i' ! j')"
  by (cases "i < length xs"; cases "i' = i"; cases "j' = j"; cases "j < length (xs ! i)")
     (simp_all add: list_update_beyond not_less)

lemma nth_update_if:
  "xs[i := v] ! i' = (if i' = i \<and> i < length xs then v else xs ! i')"
  by (cases "i < length xs"; cases "i' = i") (simp_all add: list_update_beyond not_less)

lemma length_nth_update:
  "length (xs[i := (xs ! i)[j := v]] ! i') = length (xs ! i')"
  by (cases "i < length xs"; cases "i' = i") (simp_all add: list_update_beyond not_less)

lemma update_coord_pointwise:
  "newClusterSize (update_coord i j st) = newClusterSize st"
  "length (clusters (update_coord i j st)) = length (clusters st)"
  "length (clusters (update_coord i j st) ! i') = length (clusters st ! i')"
  "length (newClusters (update_coord i j st)) = length (newClusters st)"
  "length (newClusters (update_coord i j st) ! i') = length (newClusters st ! i')"
  "clusters (update_coord i j st) ! i' ! j' =
     (if i' = i \<and> j' = j \<and> 1 < newClusterSize st ! i \<and> i < length (clusters st)
         \<and> j < length (clusters st ! i)
      then newClusters st ! i ! j / real_of_int (newClusterSize st ! i)
      else clusters st ! i' ! j')"
  "newClusters (update_coord i j st) ! i' ! j' =
     (if i' = i \<and> j' = j \<and> i < length (newClusters st) \<and> j < length (newClusters st ! i)
      then 0 else newClusters st ! i' ! j')"
  by (cases "1 < newClusterSize st ! i";
      simp add: update_coord_def Let_def nth_nth_update length_nth_update)+

lemma update_coords_pointwise:
  fixes st i n
  defines "t \<equiv> fold (update_coord i) [0..<n] st"
  shows "newClusterSize t = newClusterSize st
    \<and> length (clusters t) = length (clusters st)
    \<and> (\<forall>i'. length (clusters t ! i') = length (clusters st ! i'))
    \<and> length (newClusters t) = length (newClusters st)
    \<and> (\<forall>i'. length (newClusters t ! i') = length (newClusters st ! i'))
    \<and> (\<forall>i' j'. clusters t ! i' ! j' =
         (if i' = i \<and> j' < n \<and> 1 < newClusterSize st ! i \<and> i < length (clusters st)
             \<and> j' < length (clusters st ! i)
          then newClusters st ! i ! j' / real_of_int (newClusterSize st ! i)
          else clusters st ! i' ! j'))
    \<and> (\<forall>i' j'. newClusters t ! i' ! j' =
         (if i' = i \<and> j' < n \<and> i < length (newClusters st) \<and> j' < length (newClusters st ! i)
          then 0 else newClusters st ! i' ! j'))"
  unfolding t_def
proof (induction n)
  case 0
  show ?case by simp
next
  case (Suc n)
  show ?case
    using Suc.IH
    by (simp add: update_coord_pointwise less_Suc_eq) 
qed


lemma update_center_pointwise:
  fixes env st i
  defines "t \<equiv> update_center env i st"
  shows "length (newClusterSize t) = length (newClusterSize st)"
    "newClusterSize t ! i' = (if i' = i \<and> i < length (newClusterSize st) then 0 else newClusterSize st ! i')"
    "length (clusters t) = length (clusters st)"
    "length (clusters t ! i') = length (clusters st ! i')"
    "length (newClusters t) = length (newClusters st)"
    "length (newClusters t ! i') = length (newClusters st ! i')"
    "clusters t ! i' ! j' =
         (if i' = i \<and> j' < numCoords env \<and> 1 < newClusterSize st ! i \<and> i < length (clusters st)
             \<and> j' < length (clusters st ! i)
          then newClusters st ! i ! j' / real_of_int (newClusterSize st ! i)
          else clusters st ! i' ! j')"
    "newClusters t ! i' ! j' =
         (if i' = i \<and> j' < numCoords env \<and> i < length (newClusters st) \<and> j' < length (newClusters st ! i)
          then 0 else newClusters st ! i' ! j')"
  using update_coords_pointwise[of i "numCoords env" st]
  by (simp_all add: t_def update_center_def Let_def nth_update_if)

lemma update_phase_upto:
  fixes env st k
  defines "t \<equiv> fold (update_center env) [0..<k] st"
  shows "length (newClusterSize t) = length (newClusterSize st)
    \<and> (\<forall>i'. newClusterSize t ! i' =
          (if i' < k \<and> i' < length (newClusterSize st) then 0 else newClusterSize st ! i'))
    \<and> length (clusters t) = length (clusters st)
    \<and> (\<forall>i'. length (clusters t ! i') = length (clusters st ! i'))
    \<and> length (newClusters t) = length (newClusters st)
    \<and> (\<forall>i'. length (newClusters t ! i') = length (newClusters st ! i'))
    \<and> (\<forall>i' j'. clusters t ! i' ! j' =
         (if i' < k \<and> j' < numCoords env \<and> 1 < newClusterSize st ! i' \<and> i' < length (clusters st)
             \<and> j' < length (clusters st ! i')
          then newClusters st ! i' ! j' / real_of_int (newClusterSize st ! i')
          else clusters st ! i' ! j'))
    \<and> (\<forall>i' j'. newClusters t ! i' ! j' =
         (if i' < k \<and> j' < numCoords env \<and> i' < length (newClusters st) \<and> j' < length (newClusters st ! i')
          then 0 else newClusters st ! i' ! j'))"
  unfolding t_def
proof (induction k)
  case 0
  show ?case by simp
next
  case (Suc k)
  show ?case
    using Suc.IH
    by (auto simp: update_center_pointwise less_Suc_eq)
qed

lemma update_phase_clusters:
  assumes "i < numClusters env" "j < numCoords env" "i < length (clusters st)"
    "j < length (clusters st ! i)"
  shows "clusters (update_phase env st) ! i ! j =
     (if 1 < newClusterSize st ! i
      then newClusters st ! i ! j / real_of_int (newClusterSize st ! i)
      else clusters st ! i ! j)"
  using update_phase_upto[of env "numClusters env" st] assms
  by (simp add: update_phase_def)

subsection \<open>The example inputs, evaluated\<close>

lemmas eval_defs = omp_kmeans_def magnitude_of_def trunc_int_def init_state_def loop_head_def
  iteration_def assign_phase_def assign_point_def assign_index_def euclid_dist_2_def
  reduce_phase_def reduce_cell_def update_phase_def update_center_def update_coord_def
  find_nearest_cluster_def line_env_def two_points_def three_points_def
  Let_def upt_rec eval_nat_numeral

lemma run_three_points_four_threads:
  "omp_kmeans (line_env 3 2 1 4 (\<lambda>i. i)) three_points [0, 0, 0] =
     (1, Inr (0, \<lparr>objects = three_points, clusters = [[5], [10]], membership = [0, 1, 2],
        newClusterSize = [0, 0], newClusters = [[0], [0]],
        local_newClusterSize = [0, 0, 0, 0, 0, 0, 0, 0],
        local_newClusters = [[0], [0], [0], [0], [0], [0], [0], [0]], delta = 0\<rparr>))"
  by (simp add: omp_kmeans_loop.simps eval_defs)

lemma run_three_points_one_thread:
  "omp_kmeans (line_env 3 2 1 1 (\<lambda>i. 0)) three_points [0, 0, 0] = (1, Inl OutOfBounds)"
  by (simp add: omp_kmeans_loop.simps eval_defs)

lemma scan_three_points:
  "assign_index (line_env 3 2 1 1 (\<lambda>i. 0)) (init_state (line_env 3 2 1 1 (\<lambda>i. 0)) three_points [0, 0, 0]) 2 = 2"
  "find_nearest_cluster 2 1 (three_points ! 2) [[0], [10]] = 1"
  "euclid_dist_2 1 (three_points ! 2) [10] = 0"
  "euclid_dist_2 1 (three_points ! 2) [0] = 100"
  by (simp_all add: eval_defs)

lemma assign_two_points:
  "assign_phase (line_env 2 2 1 1 (\<lambda>i. 0)) (init_state (line_env 2 2 1 1 (\<lambda>i. 0)) two_points [0, 0]) =
     Inr \<lparr>objects = two_points, clusters = two_points, membership = [0, 1],
        newClusterSize = [0, 0], newClusters = [[0], [0]],
        local_newClusterSize = [1, 1],
        local_newClusters = [[0], [10]], delta = 0\<rparr>"
  by (simp add: eval_defs)

lemma magnitudes:
  "magnitude_of 1 = Inr 1" "magnitude_of (1/2) = Inr 2" "magnitude_of (3/8) = Inr 2"
  by (simp_all add: magnitude_of_def trunc_int_def)


subsection \<open>The loop test\<close>

lemma iteration_fault_magnitude_one:
  assumes "iteration env 1 st = Inl e" "numObjs env < 2 ^ 31"
  shows "e = OutOfBounds"
proof (cases "assign_phase env (st\<lparr>delta := 0\<rparr>)")
  case (Inl e')
  then show ?thesis using assms(1) assign_phase_fault[OF Inl] by (simp add: iteration_def)
next
  case (Inr st1)
  from assign_phase_delta[OF Inr] have "0 \<le> delta st1" "delta st1 \<le> int (numObjs env)"
    by simp_all
  moreover have "int (numObjs env) < 2 ^ 31" using assms(2) by (metis of_nat_less_iff of_nat_numeral of_nat_power)
  ultimately show ?thesis using assms(1) Inr
    by (simp add: iteration_def Let_def update_phase_frame reduce_phase_frame split: if_splits)
qed

lemma iteration_delta_magnitude_one:
  assumes "iteration env 1 st = Inr st'"
  shows "delta st' \<le> int (numObjs env)"
proof -
  obtain st1 where st1: "assign_phase env (st\<lparr>delta := 0\<rparr>) = Inr st1"
    using assms by (auto simp: iteration_def split: sum.splits)
  from iteration_delta[OF assms st1] assign_phase_delta[OF st1] show ?thesis by simp
qed

lemma loop_magnitude_one:
  assumes "numObjs env < 2 ^ 31"
  shows "fst (omp_kmeans_loop env 1 loop st) = 1
    \<and> map_sum id fst (snd (omp_kmeans_loop env 1 loop st)) \<in> {Inl OutOfBounds, Inr loop}"
proof (cases "iteration env 1 st")
  case (Inl e)
  with iteration_fault_magnitude_one[OF Inl assms] show ?thesis
    by (simp add: omp_kmeans_loop.simps[of env 1 loop st])
next
  case (Inr st')
  with iteration_delta_magnitude_one[OF Inr] show ?thesis
    by (simp add: omp_kmeans_loop.simps[of env 1 loop st])
qed

text \<open>
  With \<open>threshold = 1.0\<close> the factor \<open>magnitude\<close> is 1, and \<open>delta\<close> counts at most
  \<open>numObjs\<close> points, whatever it counts: a call executes exactly one pass, and it leaves
  the loop by the test \<open>delta > numObjs\<close> (the counter \<open>loop\<close> is still 0), unless the pass
  faults with an accumulator access out of bounds.
\<close>

theorem threshold_one_single_pass:
  assumes "threshold env = 1" and "numObjs env < 2 ^ 31"
  shows "fst (omp_kmeans env objs memb) = 1
    \<and> map_sum id fst (snd (omp_kmeans env objs memb)) \<in> {Inl OutOfBounds, Inr 0}"
  using loop_magnitude_one[OF assms(2), of 0 "init_state env objs memb"] assms(1)
  by (simp add: omp_kmeans_def magnitudes)

theorem threshold_one_single_pass_witness:
  "threshold (line_env 3 2 1 4 (\<lambda>i. i)) = 1 \<and> numObjs (line_env 3 2 1 4 (\<lambda>i. i)) < 2 ^ 31
   \<and> fst (omp_kmeans (line_env 3 2 1 4 (\<lambda>i. i)) three_points [0, 0, 0]) = 1
   \<and> map_sum id fst (snd (omp_kmeans (line_env 3 2 1 4 (\<lambda>i. i)) three_points [0, 0, 0])) = Inr 0"
  using threshold_one_single_pass[of "line_env 3 2 1 4 (\<lambda>i. i)" three_points "[0, 0, 0]"]
    run_three_points_four_threads
  by (simp add: line_env_def)

text \<open>
  From any state the loop terminates (\<open>omp_kmeans_loop\<close> is a total function, its
  termination proved above) within 501 passes: the first pass precedes the first test,
  and \<open>loop++ < 500\<close> compares the counter before it is incremented.
\<close>

theorem loop_at_most_501_passes:
  "fst (omp_kmeans_loop env magnitude 0 st) \<le> 501 \<and> fst (omp_kmeans env objs memb) \<le> 501"
proof -
  have "fst (omp_kmeans_loop env m 0 s) \<le> 501" for m s
    using loop_passes_bound[of env m 0 s] by simp
  then show ?thesis by (auto simp: omp_kmeans_def split: sum.splits)
qed

text \<open>
  The test as the code computes it, from any state at the head of a pass: after a pass
  that does not fault, the loop begins another pass exactly when
  \<open>delta * (int)(1.0 / threshold) > numObjs\<close> and \<open>loop < 500\<close>, where \<open>delta\<close> is the count at
  the end of the parallel loop and the conversion to \<open>int\<close> truncates.
\<close>

theorem loop_continues_iff:
  assumes "magnitude_of (threshold env) = Inr magnitude"
    and "assign_phase env (st\<lparr>delta := 0\<rparr>) = Inr st1"
    and "iteration env magnitude st = Inr st'"
  shows "(1 < fst (omp_kmeans_loop env magnitude loop st)) =
     (int (numObjs env) < delta st1 * trunc_int (1 / threshold env) \<and> loop < 500)"
proof -
  have m: "magnitude = trunc_int (1 / threshold env)"
    using assms(1) by (simp add: magnitude_of_def split: if_splits)
  have d: "delta st' = delta st1 * magnitude" by (rule iteration_delta[OF assms(3,2)])
  show ?thesis
  proof (cases "int (numObjs env) < delta st' \<and> loop < 500")
    case True
    then have "omp_kmeans_loop env magnitude loop st =
        apfst Suc (omp_kmeans_loop env magnitude (loop + 1) st')"
      using assms(3) by (simp add: omp_kmeans_loop.simps[of env magnitude loop st])
    then have "1 < fst (omp_kmeans_loop env magnitude loop st)"
      using loop_passes_pos[of env magnitude "loop + 1" st'] by simp
    with True d m show ?thesis by simp
  next
    case False
    then have "fst (omp_kmeans_loop env magnitude loop st) = 1"
      using assms(3) by (auto simp: omp_kmeans_loop.simps[of env magnitude loop st])
    with False d m show ?thesis by auto
  qed
qed

theorem loop_continues_iff_witness:
  "magnitude_of (threshold (line_env 2 2 (1/2) 1 (\<lambda>i. 0))) = Inr 2
   \<and> assign_phase (line_env 2 2 (1/2) 1 (\<lambda>i. 0))
        (init_state (line_env 2 2 (1/2) 1 (\<lambda>i. 0)) two_points [0, 0]\<lparr>delta := 0\<rparr>) =
      Inr (init_state (line_env 2 2 (1/2) 1 (\<lambda>i. 0)) two_points [0, 0]
             \<lparr>membership := [0, 1], local_newClusterSize := [1, 1],
               local_newClusters := [[0], [10]]\<rparr>)
   \<and> iteration (line_env 2 2 (1/2) 1 (\<lambda>i. 0)) 2
        (init_state (line_env 2 2 (1/2) 1 (\<lambda>i. 0)) two_points [0, 0]) =
      Inr (init_state (line_env 2 2 (1/2) 1 (\<lambda>i. 0)) two_points [0, 0]\<lparr>membership := [0, 1]\<rparr>)
   \<and> \<not> 1 < fst (omp_kmeans_loop (line_env 2 2 (1/2) 1 (\<lambda>i. 0)) 2 0
              (init_state (line_env 2 2 (1/2) 1 (\<lambda>i. 0)) two_points [0, 0]))"
proof -
  let ?env = "line_env 2 2 (1/2) 1 (\<lambda>i. 0)"
  let ?st = "init_state ?env two_points [0, 0]"
  have m: "magnitude_of (threshold ?env) = Inr 2" by (simp add: line_env_def magnitudes)
  have a: "assign_phase ?env (?st\<lparr>delta := 0\<rparr>) =
      Inr (?st\<lparr>membership := [0, 1], local_newClusterSize := [1, 1],
               local_newClusters := [[0], [10]]\<rparr>)"
    by (simp add: eval_defs)
  have i: "iteration ?env 2 ?st = Inr (?st\<lparr>membership := [0, 1]\<rparr>)"
    by (simp add: eval_defs)
  have d: "delta ?st = 0" by (simp add: init_state_def)
  from loop_continues_iff[OF m a i, of 0] m a i d show ?thesis
    by simp
qed

subsection \<open>The centres after a pass\<close>

text \<open>
  C5. After a pass, coordinate \<open>j\<close> of centre \<open>i\<close> is the sum \<open>newClusters[i][j]\<close> divided
  by the count \<open>newClusterSize[i]\<close>, both as the reduction of lines 192-201 leaves them,
  when that count exceeds 1, and it is the coordinate of before the pass otherwise.
\<close>

theorem centre_replaced_iff_count_exceeds_one:
  assumes "assign_phase env (st\<lparr>delta := 0\<rparr>) = Inr st1"
    and "iteration env magnitude st = Inr st'"
    and "i < numClusters env" and "j < numCoords env"
    and "i < length (clusters st)" and "j < length (clusters st ! i)"
  shows "clusters st' ! i ! j =
     (if 1 < newClusterSize (reduce_phase env st1) ! i
      then newClusters (reduce_phase env st1) ! i ! j
             / real_of_int (newClusterSize (reduce_phase env st1) ! i)
      else clusters st ! i ! j)"
proof -
  have c: "clusters (reduce_phase env st1) = clusters st"
    using assign_phase_frame[OF assms(1)] by (simp add: reduce_phase_frame)
  have "clusters st' = clusters (update_phase env (reduce_phase env st1))"
    using assms(1,2) by (auto simp: iteration_def Let_def split: if_splits)
  then show ?thesis
    using update_phase_clusters[of i env j "reduce_phase env st1"] assms(3-6) c by simp
qed

theorem centre_replaced_iff_count_exceeds_one_witness:
  "assign_phase (line_env 3 2 1 4 (\<lambda>i. i))
      (init_state (line_env 3 2 1 4 (\<lambda>i. i)) three_points [0, 0, 0]\<lparr>delta := 0\<rparr>) =
    Inr (init_state (line_env 3 2 1 4 (\<lambda>i. i)) three_points [0, 0, 0]
          \<lparr>membership := [0, 1, 2], local_newClusterSize := [1, 0, 0, 1, 0, 0, 1, 0],
            local_newClusters := [[0], [0], [0], [10], [0], [0], [10], [0]]\<rparr>)
   \<and> iteration (line_env 3 2 1 4 (\<lambda>i. i)) 1
        (init_state (line_env 3 2 1 4 (\<lambda>i. i)) three_points [0, 0, 0]) =
      Inr (init_state (line_env 3 2 1 4 (\<lambda>i. i)) three_points [0, 0, 0]
            \<lparr>clusters := [[5], [10]], membership := [0, 1, 2]\<rparr>)
   \<and> clusters (init_state (line_env 3 2 1 4 (\<lambda>i. i)) three_points [0, 0, 0]) = [[0], [10]]
   \<and> newClusterSize (reduce_phase (line_env 3 2 1 4 (\<lambda>i. i))
        (init_state (line_env 3 2 1 4 (\<lambda>i. i)) three_points [0, 0, 0]
          \<lparr>membership := [0, 1, 2], local_newClusterSize := [1, 0, 0, 1, 0, 0, 1, 0],
            local_newClusters := [[0], [0], [0], [10], [0], [0], [10], [0]]\<rparr>)) = [2, 1]
   \<and> [[5], [10]] ! 0 ! 0 = (10 / real_of_int 2 :: real)
   \<and> [[5], [10]] ! 1 ! 0 = ([[0], [10]] ! 1 ! 0 :: real)"
proof -
  let ?env = "line_env 3 2 1 4 (\<lambda>i. i)"
  let ?st = "init_state ?env three_points [0, 0, 0]"
  let ?st1 = "?st\<lparr>membership := [0, 1, 2], local_newClusterSize := [1, 0, 0, 1, 0, 0, 1, 0],
            local_newClusters := [[0], [0], [0], [10], [0], [0], [10], [0]]\<rparr>"
  let ?st' = "?st\<lparr>clusters := [[5], [10]], membership := [0, 1, 2]\<rparr>"
  have a: "assign_phase ?env (?st\<lparr>delta := 0\<rparr>) = Inr ?st1" by (simp add: eval_defs)
  have i: "iteration ?env 1 ?st = Inr ?st'" by (simp add: eval_defs)
  have c: "clusters ?st = [[0], [10]]" by (simp add: eval_defs)
  have r: "newClusterSize (reduce_phase ?env ?st1) = [2, 1]"
    "newClusters (reduce_phase ?env ?st1) = [[10], [10]]" by (simp_all add: eval_defs)
  have n: "0 < numClusters ?env" "1 < numClusters ?env" "0 < numCoords ?env"
    by (simp_all add: line_env_def)
  from centre_replaced_iff_count_exceeds_one[OF a i n(1) n(3)]
    centre_replaced_iff_count_exceeds_one[OF a i n(2) n(3)] a i c r
  show ?thesis by simp
qed

subsection \<open>Read-only arrays\<close>

text \<open>
  C8. A call that returns leaves the array \<open>objects\<close> as it received it, and a parallel
  loop that completes leaves \<open>objects\<close> and \<open>clusters\<close> as they were at its start.
\<close>

theorem objects_and_centres_unchanged:
  "(omp_kmeans env objs memb = (n, Inr (l, st')) \<longrightarrow> objects st' = objs)
   \<and> (assign_phase env st = Inr st1 \<longrightarrow> objects st1 = objects st \<and> clusters st1 = clusters st)"
proof -
  have "objects st' = objs" if "omp_kmeans env objs memb = (n, Inr (l, st'))"
  proof -
    from that obtain m where "omp_kmeans_loop env m 0 (init_state env objs memb) = (n, Inr (l, st'))"
      by (auto simp: omp_kmeans_def split: sum.splits)
    from loop_objects[OF this] show ?thesis by (simp add: init_state_def)
  qed
  then show ?thesis using assign_phase_frame[of env st st1] by blast
qed

theorem objects_and_centres_unchanged_witness:
  "omp_kmeans (line_env 3 2 1 4 (\<lambda>i. i)) three_points [0, 0, 0] =
     (1, Inr (0, \<lparr>objects = three_points, clusters = [[5], [10]], membership = [0, 1, 2],
        newClusterSize = [0, 0], newClusters = [[0], [0]],
        local_newClusterSize = [0, 0, 0, 0, 0, 0, 0, 0],
        local_newClusters = [[0], [0], [0], [0], [0], [0], [0], [0]], delta = 0\<rparr>))
   \<and> assign_phase (line_env 3 2 1 4 (\<lambda>i. i))
        (init_state (line_env 3 2 1 4 (\<lambda>i. i)) three_points [0, 0, 0]) =
      Inr (init_state (line_env 3 2 1 4 (\<lambda>i. i)) three_points [0, 0, 0]
          \<lparr>membership := [0, 1, 2], local_newClusterSize := [1, 0, 0, 1, 0, 0, 1, 0],
            local_newClusters := [[0], [0], [0], [10], [0], [0], [10], [0]]\<rparr>)
   \<and> objects (init_state (line_env 3 2 1 4 (\<lambda>i. i)) three_points [0, 0, 0]
          \<lparr>membership := [0, 1, 2], local_newClusterSize := [1, 0, 0, 1, 0, 0, 1, 0],
            local_newClusters := [[0], [0], [0], [10], [0], [0], [10], [0]]\<rparr>) = three_points
   \<and> clusters (init_state (line_env 3 2 1 4 (\<lambda>i. i)) three_points [0, 0, 0]
          \<lparr>membership := [0, 1, 2], local_newClusterSize := [1, 0, 0, 1, 0, 0, 1, 0],
            local_newClusters := [[0], [0], [0], [10], [0], [0], [10], [0]]\<rparr>) = [[0], [10]]"
proof -
  let ?env = "line_env 3 2 1 4 (\<lambda>i. i)"
  let ?st = "init_state ?env three_points [0, 0, 0]"
  let ?st1 = "?st\<lparr>membership := [0, 1, 2], local_newClusterSize := [1, 0, 0, 1, 0, 0, 1, 0],
            local_newClusters := [[0], [0], [0], [10], [0], [0], [10], [0]]\<rparr>"
  have a: "assign_phase ?env ?st = Inr ?st1" by (simp add: eval_defs)
  have o: "objects ?st = three_points" "clusters ?st = [[0], [10]]" by (simp_all add: eval_defs)
  from objects_and_centres_unchanged[where env = ?env and objs = three_points
      and memb = "[0, 0, 0]" and st = ?st and ?st1.0 = ?st1]
    run_three_points_four_threads a o
  show ?thesis by simp
qed

subsection \<open>The defects of the parallel loop\<close>

text \<open>
  C1 fails on the code. For the points 0, 10, 10 on a line and two centres (0 and 10),
  the scan inlined in \<open>omp_kmeans\<close> gives the third point the index 2, its own number,
  where centre 1 is at distance 0 and centre 0 at distance 100; \<open>find_nearest_cluster\<close>
  gives 1.
\<close>

theorem inlined_scan_stores_point_number:
  "assign_index (line_env 3 2 1 1 (\<lambda>i. 0))
      (init_state (line_env 3 2 1 1 (\<lambda>i. 0)) three_points [0, 0, 0]) 2 = 2
   \<and> clusters (init_state (line_env 3 2 1 1 (\<lambda>i. 0)) three_points [0, 0, 0]) = [[0], [10]]
   \<and> euclid_dist_2 1 (three_points ! 2) [10] = 0
   \<and> euclid_dist_2 1 (three_points ! 2) [0] = 100
   \<and> find_nearest_cluster 2 1 (three_points ! 2) [[0], [10]] = 1"
  by (simp add: eval_defs)

text \<open>
  C2 fails on the code. The same points with four threads, one point each: the call
  returns, and the third entry of \<open>membership\<close> is 2, with \<open>numClusters = 2\<close>.
\<close>

theorem membership_not_below_numClusters:
  "map_sum id (\<lambda>r. membership (snd r))
      (snd (omp_kmeans (line_env 3 2 1 4 (\<lambda>i. i)) three_points [0, 0, 0])) = Inr [0, 1, 2]
   \<and> numClusters (line_env 3 2 1 4 (\<lambda>i. i)) = 2"
  using run_three_points_four_threads by (simp add: line_env_def)

text \<open>
  C3 fails on the code: \<open>delta\<close> counts the points whose new index equals their previous
  membership. In the first pass of a call on the points 0 and 10 both points leave the
  value -1, and \<open>delta\<close> is 0; in a pass that starts with the membership 0, 1 no point
  changes, and \<open>delta\<close> is 2.
\<close>

theorem delta_counts_unchanged_points:
  "membership (init_state (line_env 2 2 1 1 (\<lambda>i. 0)) two_points [0, 0]) = [- 1, - 1]
   \<and> map_sum id (\<lambda>s. (membership s, delta s))
        (assign_phase (line_env 2 2 1 1 (\<lambda>i. 0))
           (init_state (line_env 2 2 1 1 (\<lambda>i. 0)) two_points [0, 0])) = Inr ([0, 1], 0)
   \<and> membership (loop_head (line_env 2 2 1 1 (\<lambda>i. 0)) two_points [0, 1]) = [0, 1]
   \<and> map_sum id (\<lambda>s. (membership s, delta s))
        (assign_phase (line_env 2 2 1 1 (\<lambda>i. 0))
           (loop_head (line_env 2 2 1 1 (\<lambda>i. 0)) two_points [0, 1])) = Inr ([0, 1], 2)"
  by (simp add: eval_defs)

text \<open>
  C10 fails on the code. With one thread the accumulators have \<open>numClusters = 2\<close> cells;
  the third of the points 0, 10, 10 is given the index 2, and line 183 accesses
  \<open>local_newClusterSize[0][2]\<close>.
\<close>

theorem accumulator_index_out_of_bounds:
  "assign_index (line_env 3 2 1 1 (\<lambda>i. 0))
      (init_state (line_env 3 2 1 1 (\<lambda>i. 0)) three_points [0, 0, 0]) 2 = 2
   \<and> length (local_newClusterSize (init_state (line_env 3 2 1 1 (\<lambda>i. 0)) three_points [0, 0, 0])) = 2
   \<and> omp_kmeans (line_env 3 2 1 1 (\<lambda>i. 0)) three_points [0, 0, 0] = (1, Inl OutOfBounds)"
  using scan_three_points(1) run_three_points_one_thread
  by (simp add: init_state_def line_env_def)

text \<open>
  C7 fails on the code. With \<open>threshold = 1.0\<close>, one thread and the points 0, 10, 10 on
  a line, a valid input, the first pass accesses \<open>local_newClusterSize[0][2]\<close> beyond the
  block (the defect of line 177), and the call declares no convergence.
\<close>

theorem threshold_one_call_faults:
  "threshold (line_env 3 2 1 1 (\<lambda>i. 0)) = 1
   \<and> numObjs (line_env 3 2 1 1 (\<lambda>i. 0)) = length three_points
   \<and> numClusters (line_env 3 2 1 1 (\<lambda>i. 0)) = 2
   \<and> snd (omp_kmeans (line_env 3 2 1 1 (\<lambda>i. 0)) three_points [0, 0, 0]) = Inl OutOfBounds"
  using run_three_points_one_thread by (simp add: line_env_def three_points_def)

subsection \<open>The first pass of a call\<close>

lemma scan_nonneg:
  "0 \<le> fst acc \<Longrightarrow>
   0 \<le> fst (fold (\<lambda>j (index, min_dist).
                  let dist = d j in if dist < min_dist then (int i, dist) else (index, min_dist))
                js acc)"
  by (induction js arbitrary: acc) (auto simp: Let_def split: prod.splits)

lemma assign_index_nonneg: "0 \<le> assign_index env st i"
  unfolding assign_index_def Let_def
  using scan_nonneg[of "(0, euclid_dist_2 (numCoords env) (objects st ! i) (clusters st ! 0))"
      "\<lambda>j. euclid_dist_2 (numCoords env) (objects st ! i) (clusters st ! j)" i "[1..<numClusters env]"]
  by (simp add: Let_def)

lemma assign_point_unassigned:
  assumes "assign_point env i st = Inr st'" "membership st ! i = - 1"
  shows "delta st' = delta st"
proof -
  have "membership st ! i \<noteq> assign_index env st i"
    using assms(2) assign_index_nonneg[of env st i] by simp
  then have "\<not> membership st ! i XOR assign_index env st i = 0"
    by (simp only: xor_int_zero not_False_eq_True)
  then show ?thesis using assms(1)
    by (auto simp: assign_point_def Let_def split: if_splits)
qed

lemma assign_point_membership_other:
  assumes "assign_point env i st = Inr st'" "j \<noteq> i"
  shows "membership st' ! j = membership st ! j"
  using assms by (auto simp: assign_point_def Let_def split: if_splits)

lemma assign_points_unassigned:
  assumes "for_each (assign_point env) [0..<n] st = Inr st'"
    and "\<forall>j<n. membership st ! j = - 1"
  shows "delta st' = delta st \<and> (\<forall>j\<ge>n. membership st' ! j = membership st ! j)"
  using assms
proof (induction n arbitrary: st')
  case 0
  then show ?case by simp
next
  case (Suc n)
  from Suc.prems(1) obtain t where t: "for_each (assign_point env) [0..<n] st = Inr t"
      "assign_point env n t = Inr st'"
    by (auto simp: for_each_append split: sum.splits)
  from Suc.IH[OF t(1)] Suc.prems(2)
  have ih: "delta t = delta st" "\<forall>j\<ge>n. membership t ! j = membership st ! j" by simp_all
  then have "membership t ! n = - 1" using Suc.prems(2) by simp
  from assign_point_unassigned[OF t(2) this] ih(1) have "delta st' = delta st" by simp
  moreover have "membership st' ! j = membership st ! j" if "Suc n \<le> j" for j
    using assign_point_membership_other[OF t(2), of j] ih(2) that by simp
  ultimately show ?case by simp
qed

lemma init_membership:
  "length (fold (\<lambda>i m. m[i := v]) [0..<n] memb) = length memb
   \<and> (\<forall>j. fold (\<lambda>i m. m[i := v]) [0..<n] memb ! j =
         (if j < n \<and> j < length memb then v else memb ! j))"
  by (induction n) (auto simp: nth_update_if less_Suc_eq)

lemma first_pass_count:
  assumes "numObjs env \<le> length memb"
    and "assign_phase env (init_state env objs memb\<lparr>delta := 0\<rparr>) = Inr st1"
  shows "delta st1 = 0"
proof -
  let ?st = "init_state env objs memb"
  have "\<forall>j<numObjs env. membership (?st\<lparr>delta := 0\<rparr>) ! j = - 1"
    using assms(1) init_membership[of "- 1" "numObjs env" memb] by (simp add: init_state_def)
  from assign_points_unassigned[OF assms(2)[unfolded assign_phase_def] this]
  show ?thesis by simp
qed

lemma first_pass_delta:
  assumes "numObjs env \<le> length memb"
    and "iteration env magnitude (init_state env objs memb) = Inr st'"
  shows "delta st' = 0"
proof -
  obtain st1 where st1: "assign_phase env (init_state env objs memb\<lparr>delta := 0\<rparr>) = Inr st1"
    using assms(2) by (auto simp: iteration_def split: sum.splits)
  from iteration_delta[OF assms(2) st1] first_pass_count[OF assms(1) st1] show ?thesis by simp
qed

lemma call_first_pass:
  assumes "numObjs env \<le> length memb"
    and "magnitude_of (threshold env) = Inr magnitude"
    and "iteration env magnitude (init_state env objs memb) = Inr st'"
  shows "omp_kmeans env objs memb = (1, Inr (0, st'))"
  using first_pass_delta[OF assms(1,3)] assms(2,3)
  by (simp add: omp_kmeans_def omp_kmeans_loop.simps[of env magnitude 0 "init_state env objs memb"])

lemma call_passes_le_one:
  assumes "numObjs env \<le> length memb"
  shows "fst (omp_kmeans env objs memb) \<le> 1"
proof (cases "magnitude_of (threshold env)")
  case (Inl e)
  then show ?thesis by (simp add: omp_kmeans_def)
next
  case (Inr m)
  show ?thesis
  proof (cases "iteration env m (init_state env objs memb)")
    case (Inl e)
    then show ?thesis using Inr
      by (simp add: omp_kmeans_def omp_kmeans_loop.simps[of env m 0 "init_state env objs memb"])
  next
    case it: (Inr st')
    from call_first_pass[OF assms Inr it] show ?thesis by simp
  qed
qed

text \<open>
  Every call executes one pass only. In the first pass each point leaves the value -1,
  and the index it is given is not negative, so \<open>delta\<close>, which counts the points that
  keep their value, is 0 at the first test.
\<close>

theorem call_executes_one_pass:
  assumes "numObjs env \<le> length memb"
  shows "fst (omp_kmeans env objs memb) \<le> 1"
  by (rule call_passes_le_one[OF assms])

theorem call_executes_one_pass_witness:
  "numObjs (line_env 3 2 1 4 (\<lambda>i. i)) \<le> length [0, 0, 0 :: int]
   \<and> fst (omp_kmeans (line_env 3 2 1 4 (\<lambda>i. i)) three_points [0, 0, 0]) \<le> 1"
  using call_executes_one_pass[of "line_env 3 2 1 4 (\<lambda>i. i)" "[0, 0, 0]" three_points]
  by (simp add: line_env_def)





subsection \<open>The function find_nearest_cluster\<close>

lemma nearest_scan_invariant:
  fixes d :: "nat \<Rightarrow> real"
  defines "scan \<equiv> (\<lambda>i (index, min_dist). let dist = d i in
                     if dist < min_dist then (int i, dist) else (index, min_dist))"
  assumes "1 \<le> n"
  shows "case fold scan [1..<n] (0, d 0) of (index, min_dist) \<Rightarrow>
           0 \<le> index \<and> nat index < n \<and> min_dist = d (nat index)
           \<and> (\<forall>j<n. min_dist \<le> d j) \<and> (\<forall>j<nat index. min_dist < d j)"
  using assms(2)
proof (induction n rule: dec_induct)
  case base
  show ?case by simp
next
  case (step n)
  obtain index min_dist where f: "fold scan [1..<n] (0, d 0) = (index, min_dist)"
    by (cases "fold scan [1..<n] (0, d 0)")
  with step.IH have ih: "0 \<le> index" "nat index < n" "min_dist = d (nat index)"
    "\<forall>j<n. min_dist \<le> d j" "\<forall>j<nat index. min_dist < d j" by auto
  have up: "[1..<Suc n] = [1..<n] @ [n]" using step.hyps by simp
  show ?case
  proof (cases "d n < min_dist")
    case True
    then have "fold scan [1..<Suc n] (0, d 0) = (int n, d n)"
      using f step.hyps by (simp add: scan_def)
    moreover have "\<forall>j<Suc n. d n \<le> d j" using ih(4) True by (auto simp: less_Suc_eq)
    moreover have "\<forall>j<n. d n < d j" using ih(4) True by fastforce
    ultimately show ?thesis by simp
  next
    case False
    then have "fold scan [1..<Suc n] (0, d 0) = (index, min_dist)"
      using f step.hyps by (simp add: scan_def)
    moreover have "\<forall>j<Suc n. min_dist \<le> d j" using ih(4) False by (auto simp: less_Suc_eq)
    ultimately show ?thesis using ih by simp
  qed
qed

text \<open>
  The function \<open>find_nearest_cluster\<close>, which \<open>omp_kmeans\<close> does not call, returns the
  first centre at the least squared distance.
\<close>

theorem find_nearest_cluster_first_minimum:
  assumes "0 < k"
  shows "0 \<le> find_nearest_cluster k m object cs
    \<and> nat (find_nearest_cluster k m object cs) < k
    \<and> (\<forall>j<k. euclid_dist_2 m object (cs ! nat (find_nearest_cluster k m object cs))
                \<le> euclid_dist_2 m object (cs ! j))
    \<and> (\<forall>j<nat (find_nearest_cluster k m object cs).
          euclid_dist_2 m object (cs ! nat (find_nearest_cluster k m object cs))
            < euclid_dist_2 m object (cs ! j))"
proof -
  have "1 \<le> k" using assms by simp
  from nearest_scan_invariant[OF this, of "\<lambda>j. euclid_dist_2 m object (cs ! j)"]
  show ?thesis
    unfolding find_nearest_cluster_def
    by (auto split: prod.splits)
qed

theorem find_nearest_cluster_first_minimum_witness:
  "(0::nat) < 2 \<and> find_nearest_cluster 2 1 [10] [[0], [10]] = 1
   \<and> euclid_dist_2 1 [10] ([[0], [10]] ! 1) \<le> euclid_dist_2 1 [10] ([[0], [10]] ! 0)
   \<and> euclid_dist_2 1 [10] ([[0], [10]] ! 1) < euclid_dist_2 1 [10] ([[0], [10]] ! 0)"
proof -
  have v: "find_nearest_cluster 2 1 [10] [[0], [10]] = 1"
    by (simp add: find_nearest_cluster_def euclid_dist_2_def Let_def upt_rec eval_nat_numeral)
  from find_nearest_cluster_first_minimum[of 2 1 "[10]" "[[0], [10]]"] v
  show ?thesis by simp
qed

subsection \<open>What delta counts\<close>

lemma assign_index_frame:
  "objects t = objects st \<Longrightarrow> clusters t = clusters st \<Longrightarrow> assign_index env t i = assign_index env st i"
  by (simp add: assign_index_def)

lemma assign_point_delta_eq:
  assumes "assign_point env i st = Inr st'"
  shows "delta st' = delta st + (if membership st ! i = assign_index env st i then 1 else 0)"
  using assms by (auto simp: assign_point_def Let_def xor_int_zero split: if_splits)

lemma assign_points_delta_count:
  assumes "for_each (assign_point env) [0..<n] st = Inr st'"
  shows "delta st' = delta st
        + int (length (filter (\<lambda>i. membership st ! i = assign_index env st i) [0..<n]))
    \<and> objects st' = objects st \<and> clusters st' = clusters st
    \<and> (\<forall>j\<ge>n. membership st' ! j = membership st ! j)"
  using assms
proof (induction n arbitrary: st')
  case 0
  then show ?case by simp
next
  case (Suc n)
  from Suc.prems obtain t where t: "for_each (assign_point env) [0..<n] st = Inr t"
      "assign_point env n t = Inr st'"
    by (auto simp: for_each_append split: sum.splits)
  from Suc.IH[OF t(1)]
  have ih: "delta t = delta st
      + int (length (filter (\<lambda>i. membership st ! i = assign_index env st i) [0..<n]))"
    "objects t = objects st" "clusters t = clusters st"
    "\<forall>j\<ge>n. membership t ! j = membership st ! j" by simp_all
  have "delta st' = delta t + (if membership t ! n = assign_index env t n then 1 else 0)"
    by (rule assign_point_delta_eq[OF t(2)])
  moreover have "membership t ! n = membership st ! n" using ih(4) by simp
  moreover have "assign_index env t n = assign_index env st n"
    by (rule assign_index_frame[OF ih(2,3)])
  ultimately have "delta st' = delta st
      + int (length (filter (\<lambda>i. membership st ! i = assign_index env st i) [0..<Suc n]))"
    using ih(1) by simp
  moreover have "objects st' = objects st" "clusters st' = clusters st"
    using assign_point_frame[OF t(2)] ih(2,3) by simp_all
  moreover have "membership st' ! j = membership st ! j" if "Suc n \<le> j" for j
    using assign_point_membership_other[OF t(2), of j] ih(4) that by simp
  ultimately show ?case by simp
qed

text \<open>
  At the end of the parallel loop \<open>delta\<close> is the number of points whose new index
  equals their membership of before the pass.
\<close>

theorem delta_is_number_of_unchanged_points:
  assumes "assign_phase env (st\<lparr>delta := 0\<rparr>) = Inr st1"
  shows "delta st1 =
     int (length (filter (\<lambda>i. membership st ! i = assign_index env st i) [0..<numObjs env]))"
  using assign_points_delta_count[OF assms[unfolded assign_phase_def]]
    assign_index_frame[of "st\<lparr>delta := 0\<rparr>" st env]
  by simp


theorem delta_is_number_of_unchanged_points_witness:
  "assign_phase (line_env 2 2 (1/2) 1 (\<lambda>i. 0))
      (loop_head (line_env 2 2 (1/2) 1 (\<lambda>i. 0)) two_points [0, 1]\<lparr>delta := 0\<rparr>) =
    Inr (loop_head (line_env 2 2 (1/2) 1 (\<lambda>i. 0)) two_points [0, 1]
           \<lparr>local_newClusterSize := [1, 1], local_newClusters := [[0], [10]], delta := 2\<rparr>)
   \<and> int (length (filter
          (\<lambda>i. membership (loop_head (line_env 2 2 (1/2) 1 (\<lambda>i. 0)) two_points [0, 1]) ! i
              = assign_index (line_env 2 2 (1/2) 1 (\<lambda>i. 0))
                  (loop_head (line_env 2 2 (1/2) 1 (\<lambda>i. 0)) two_points [0, 1]) i)
          [0..<numObjs (line_env 2 2 (1/2) 1 (\<lambda>i. 0))])) = 2"
proof -
  let ?env = "line_env 2 2 (1/2) 1 (\<lambda>i. 0)"
  let ?st = "loop_head ?env two_points [0, 1]"
  have a: "assign_phase ?env (?st\<lparr>delta := 0\<rparr>) =
      Inr (?st\<lparr>local_newClusterSize := [1, 1], local_newClusters := [[0], [10]], delta := 2\<rparr>)"
    by (simp add: eval_defs)
  from delta_is_number_of_unchanged_points[OF a] a show ?thesis by simp
qed

section \<open>Properties of the matrix code\<close>

declare steps.simps [simp del] subblock_count.simps [simp del] blk_search.simps [simp del]

subsection \<open>Indices\<close>

lemma cell_less: "i < m \<Longrightarrow> j < m \<Longrightarrow> i * m + j < m * (m::nat)"
proof -
  assume a: "i < m" "j < m"
  then have "i * m + j < Suc i * m" by simp
  also have "\<dots> \<le> m * m" using a(1) by (intro mult_le_mono1) simp
  finally show ?thesis .
qed

lemma cell_bound:
  assumes "i < m" "j < m" "m \<le> (65536::nat)"
  shows "i * m + j < 4294967296"
proof -
  have "i * m + j < m * m" by (rule cell_less[OF assms(1,2)])
  also have "m * m \<le> 65536 * 65536" using assms(3) by (intro mult_le_mono) simp_all
  finally show ?thesis by simp
qed

lemma u32_cell [simp]: "i < m \<Longrightarrow> j < m \<Longrightarrow> m \<le> (65536::nat) \<Longrightarrow> u32 (i * m + j) = i * m + j"
  using cell_bound[of i m j] by (simp add: u32_def)

lemma u32_cell' [simp]: "i < m \<Longrightarrow> j < m \<Longrightarrow> m \<le> (65536::nat) \<Longrightarrow> u32 (m * i + j) = i * m + j"
  using u32_cell[of i m j] by (simp add: mult.commute)

lemma cell_inj: "j < m \<Longrightarrow> j' < m \<Longrightarrow> (i * m + j = i' * m + j') = (i = i' \<and> j = (j'::nat))"
proof
  assume a: "j < m" "j' < m" and e: "i * m + j = i' * m + j'"
  from e have "(i * m + j) div m = (i' * m + j') div m" "(i * m + j) mod m = (i' * m + j') mod m"
    by simp_all
  with a show "i = i' \<and> j = j'" by simp
qed simp

subsection \<open>Loops that add to cells\<close>

lemma adds_update:
  assumes "i0 < m" "j0 < m"
  shows "adds m (\<lambda>C. C[i0 * m + j0 := C ! (i0 * m + j0) + v]) (\<lambda>i j. if i = i0 \<and> j = j0 then v else 0)"
  unfolding adds_def using assms
  by (auto simp: nth_list_update cell_inj cell_less)

lemma adds_nth:
  assumes "adds m f D" "length C = m * m" "i < m" "j < m"
  shows "f C ! (i * m + j) = C ! (i * m + j) + D i j"
  using assms unfolding adds_def by blast

lemma adds_length:
  assumes "adds m f D" "length C = m * m"
  shows "length (f C) = m * m"
  using assms unfolding adds_def by blast

lemma adds_id: "adds m (\<lambda>C. C) (\<lambda>i j. 0)"
  by (simp add: adds_def)

lemma adds_comp:
  assumes "adds m f D" "adds m g E"
  shows "adds m (\<lambda>C. g (f C)) (\<lambda>i j. D i j + E i j)"
  using assms unfolding adds_def by (simp add: add.assoc)

lemma adds_cong:
  assumes "adds m f D" "\<And>i j. i < m \<Longrightarrow> j < m \<Longrightarrow> D i j = E i j"
  shows "adds m f E"
  using assms unfolding adds_def by simp

lemma adds_fold:
  assumes "\<And>x. x \<in> set xs \<Longrightarrow> adds m (f x) (D x)"
  shows "adds m (fold f xs) (\<lambda>i j. \<Sum>x\<leftarrow>xs. D x i j)"
  using assms
proof (induction xs)
  case Nil
  show ?case by (simp add: adds_def)
next
  case (Cons x xs)
  have "adds m (f x) (D x)" using Cons.prems by simp
  moreover have "adds m (fold f xs) (\<lambda>i j. \<Sum>x\<leftarrow>xs. D x i j)"
    using Cons.IH Cons.prems by simp
  ultimately have "adds m (\<lambda>C. fold f xs (f x C)) (\<lambda>i j. D x i j + (\<Sum>x\<leftarrow>xs. D x i j))"
    by (rule adds_comp)
  then show ?case by (simp add: comp_def)
qed

subsection \<open>Sums over the loop ranges\<close>

lemma sum_list_if_const:
  "(\<Sum>x\<leftarrow>xs. if c then f x else 0) = (if c then (\<Sum>x\<leftarrow>xs. f x) else (0::real))"
  by simp

lemma sum_list_if_and:
  "(\<Sum>x\<leftarrow>xs. if P x \<and> c then f x else 0) =
     (if c then (\<Sum>x\<leftarrow>xs. if P x then f x else 0) else (0::real))"
  by (cases c) simp_all

lemma sum_list_delta:
  "distinct xs \<Longrightarrow> (\<Sum>x\<leftarrow>xs. if y = x then f x else 0) = (if y \<in> set xs then f y else (0::real))"
  by (induction xs) auto

lemma sum_list_delta_upt:
  "(\<Sum>x\<leftarrow>[a..<b]. if y = x then f x else 0) = (if a \<le> y \<and> y < b then f y else (0::real))"
  using sum_list_delta[of "[a..<b]" y f] by simp

lemma sum_list_shift_delta:
  "(\<Sum>r\<leftarrow>[0..<bs]. if i = ib + r then t else 0) = (if ib \<le> i \<and> i < ib + bs then t else (0::real))"
  by (induction bs) auto

lemma sum_list_delta_and:
  "(\<Sum>x\<leftarrow>[a..<b]. if c \<and> y = x then f x else 0) =
     (if c \<and> a \<le> y \<and> y < b then f y else (0::real))"
  by (cases c) (simp_all add: sum_list_delta_upt)

lemma sum_list_shift_delta_and:
  "(\<Sum>r\<leftarrow>[0..<bs]. if c \<and> i = ib + r then t else 0) =
     (if c \<and> ib \<le> i \<and> i < ib + bs then t else (0::real))"
  by (cases c) (simp_all add: sum_list_shift_delta)

lemma sum_list_shift:
  "(\<Sum>c\<leftarrow>[0..<bs]. g (x + c)) = (\<Sum>k\<leftarrow>[x..<x + bs]. (g k :: real))"
proof -
  have "[x..<x + bs] = map (\<lambda>c. x + c) [0..<bs]"
    using map_add_upt[of x bs] by (simp add: add.commute)
  then show ?thesis by (simp add: comp_def)
qed

lemma dvd_step: "(d::nat) dvd n - x \<Longrightarrow> d dvd n - (x + d)"
proof -
  assume "d dvd n - x"
  then have "d dvd (n - x) - d" by (rule dvd_diff_nat) simp
  then show ?thesis by (simp only: diff_diff_left)
qed

lemma steps_partition:
  "0 < bs \<Longrightarrow> x \<le> n \<Longrightarrow> bs dvd (n - x) \<Longrightarrow>
    (\<Sum>b\<leftarrow>steps x bs n. \<Sum>c\<leftarrow>[0..<bs]. g (b + c)) = (\<Sum>k\<leftarrow>[x..<n]. (g k :: real))"
proof (induction x bs n rule: steps.induct)
  case (1 x step n)
  show ?case
  proof (cases "x < n")
    case True
    with "1.prems" have "step \<le> n - x" by (auto dest: dvd_imp_le)
    then have le: "x + step \<le> n" using True by simp
    have dv: "step dvd (n - (x + step))" by (rule dvd_step[OF "1.prems"(3)])
    have ih: "(\<Sum>b\<leftarrow>steps (x + step) step n. \<Sum>c\<leftarrow>[0..<step]. g (b + c)) = (\<Sum>k\<leftarrow>[x + step..<n]. g k)"
      using "1.IH" True "1.prems"(1) le dv by simp
    have split: "[x..<n] = [x..<x + step] @ [x + step..<n]"
      using le by (metis le_add1 upt_add_eq_append le_Suc_ex)
    have "steps x step n = x # steps (x + step) step n"
      using True "1.prems"(1) by (simp add: steps.simps[of x step n])
    then show ?thesis using ih split sum_list_shift[of g x step] by simp
  next
    case False
    then have "steps x step n = []" by (simp add: steps.simps[of x step n])
    with False "1.prems" show ?thesis by simp
  qed
qed

lemma steps_bound:
  "0 < bs \<Longrightarrow> x \<le> n \<Longrightarrow> bs dvd (n - x) \<Longrightarrow> b \<in> set (steps x bs n) \<Longrightarrow> b + bs \<le> n"
proof (induction x bs n rule: steps.induct)
  case (1 x step n)
  show ?case
  proof (cases "x < n")
    case True
    with "1.prems" have "step \<le> n - x" by (auto dest: dvd_imp_le)
    then have le: "x + step \<le> n" using True by simp
    have dv: "step dvd (n - (x + step))" by (rule dvd_step[OF "1.prems"(3)])
    have "steps x step n = x # steps (x + step) step n"
      using True "1.prems"(1) by (simp add: steps.simps[of x step n])
    with "1.prems"(4) have "b = x \<or> b \<in> set (steps (x + step) step n)" by simp
    then show ?thesis using "1.IH" True "1.prems"(1) le dv by auto
  next
    case False
    then have "steps x step n = []" by (simp add: steps.simps[of x step n])
    with False "1.prems" show ?thesis by simp
  qed
qed

lemma steps_unique_block:
  assumes "0 < bs" "bs dvd n" "i < n"
  shows "(\<Sum>b\<leftarrow>steps 0 bs n. if b \<le> i \<and> i < b + bs then t else 0) = (t::real)"
proof -
  have "(\<Sum>b\<leftarrow>steps 0 bs n. if b \<le> i \<and> i < b + bs then t else 0) =
      (\<Sum>b\<leftarrow>steps 0 bs n. \<Sum>c\<leftarrow>[0..<bs]. if i = b + c then t else 0)"
    by (simp add: sum_list_shift_delta)
  also have "\<dots> = (\<Sum>k\<leftarrow>[0..<n]. if i = k then t else 0)"
    using steps_partition[of bs 0 n "\<lambda>k. if i = k then t else 0"] assms by simp
  also have "\<dots> = t" using assms(3) by (simp add: sum_list_delta_upt)
  finally show ?thesis .
qed

lemma steps_partition_min:
  "0 < bs \<Longrightarrow> x \<le> n \<Longrightarrow>
    (\<Sum>b\<leftarrow>steps x bs n. \<Sum>k\<leftarrow>[b..<min n (b + bs)]. g k) = (\<Sum>k\<leftarrow>[x..<n]. (g k :: real))"
proof (induction x bs n rule: steps.induct)
  case (1 x step n)
  show ?case
  proof (cases "x < n")
    case True
    have st: "steps x step n = x # steps (x + step) step n"
      using True "1.prems"(1) by (simp add: steps.simps[of x step n])
    show ?thesis
    proof (cases "x + step \<le> n")
      case le: True
      have ih: "(\<Sum>b\<leftarrow>steps (x + step) step n. \<Sum>k\<leftarrow>[b..<min n (b + step)]. g k) = (\<Sum>k\<leftarrow>[x + step..<n]. g k)"
        using "1.IH" True "1.prems"(1) le by simp
      have split: "[x..<n] = [x..<x + step] @ [x + step..<n]"
        using le by (metis le_add1 upt_add_eq_append le_Suc_ex)
      show ?thesis using st ih split le by (simp add: min_def)
    next
      case False
      then have "steps (x + step) step n = []" by (simp add: steps.simps[of "x + step" step n])
      then show ?thesis using st False by (simp add: min_def)
    qed
  next
    case False
    then have "steps x step n = []" by (simp add: steps.simps[of x step n])
    with False "1.prems" show ?thesis by simp
  qed
qed

lemma steps_unique_block_min:
  assumes "0 < bs" "i < n"
  shows "(\<Sum>b\<leftarrow>steps 0 bs n. if b \<le> i \<and> i < min n (b + bs) then t else 0) = (t::real)"
proof -
  have "(\<Sum>b\<leftarrow>steps 0 bs n. if b \<le> i \<and> i < min n (b + bs) then t else 0) =
      (\<Sum>b\<leftarrow>steps 0 bs n. \<Sum>k\<leftarrow>[b..<min n (b + bs)]. if i = k then t else 0)"
    by (simp add: sum_list_delta_upt)
  also have "\<dots> = (\<Sum>k\<leftarrow>[0..<n]. if i = k then t else 0)"
    using steps_partition_min[of bs 0 n "\<lambda>k. if i = k then t else 0"] assms by simp
  also have "\<dots> = t" using assms(2) by (simp add: sum_list_delta_upt)
  finally show ?thesis .
qed

lemma steps_less: "b \<in> set (steps x bs n) \<Longrightarrow> b < n"
proof (induction x bs n rule: steps.induct)
  case (1 x step n)
  then show ?case
    by (cases "x < n \<and> 0 < step") (auto simp: steps.simps[of x step n])
qed

lemma blk_search_divides:
  "0 < b \<Longrightarrow> 0 < blk_search n b \<and> blk_search n b dvd n"
proof (induction n b rule: blk_search.induct)
  case (1 n b)
  show ?case
  proof (cases "n mod b = 0")
    case True
    with "1.prems" show ?thesis by (simp add: blk_search.simps[of n b] dvd_eq_mod_eq_0)
  next
    case False
    then have "b \<noteq> 1" by auto
    with "1.prems" have "0 < b - 1" by simp
    with "1.IH" "1.prems" False show ?thesis by (simp add: blk_search.simps[of n b])
  qed
qed

subsection \<open>The triple loop\<close>

lemma naive_loops_adds:
  assumes "m \<le> 65536"
  shows "adds m (naive_loops A B m) (product_entry A B m)"
proof -
  let ?a = "\<lambda>i k. A ! (i * m + k)" and ?b = "\<lambda>k j. B ! (k * m + j)"
  have inner: "adds m (\<lambda>C. C[u32 (i * m + j) := C ! u32 (i * m + j) + A ! u32 (i * m + k) * B ! u32 (k * m + j)])
      (\<lambda>i' j'. if i' = i \<and> j' = j then ?a i k * ?b k j else 0)"
    if "i < m" "j < m" "k < m" for i j k
    using adds_update[OF that(1,2), of "?a i k * ?b k j"] that assms by simp
  have kloop: "adds m (fold (\<lambda>k C. C[u32 (i * m + j) := C ! u32 (i * m + j) + A ! u32 (i * m + k) * B ! u32 (k * m + j)]) [0..<m])
      (\<lambda>i' j'. if i' = i \<and> j' = j then product_entry A B m i j else 0)"
    if "i < m" "j < m" for i j
  proof (rule adds_cong[OF adds_fold])
    show "adds m (\<lambda>C. C[u32 (i * m + j) := C ! u32 (i * m + j) + A ! u32 (i * m + k) * B ! u32 (k * m + j)])
        (\<lambda>i' j'. if i' = i \<and> j' = j then ?a i k * ?b k j else 0)" if "k \<in> set [0..<m]" for k
      using inner[OF \<open>i < m\<close> \<open>j < m\<close>, of k] that by simp
    show "(\<Sum>k\<leftarrow>[0..<m]. if i' = i \<and> j' = j then ?a i k * ?b k j else 0) =
        (if i' = i \<and> j' = j then product_entry A B m i j else 0)" for i' j'
      unfolding sum_list_if_const
      by (simp add: product_entry_def interv_sum_list_conv_sum_set_nat atLeast0LessThan)
  qed
  have jloop: "adds m (fold (\<lambda>j. fold (\<lambda>k C. C[u32 (i * m + j) := C ! u32 (i * m + j) + A ! u32 (i * m + k) * B ! u32 (k * m + j)]) [0..<m]) [0..<m])
      (\<lambda>i' j'. if i' = i then product_entry A B m i j' else 0)"
    if "i < m" for i
  proof (rule adds_cong[OF adds_fold])
    show "adds m (fold (\<lambda>k C. C[u32 (i * m + j) := C ! u32 (i * m + j) + A ! u32 (i * m + k) * B ! u32 (k * m + j)]) [0..<m])
        (\<lambda>i' j'. if i' = i \<and> j' = j then product_entry A B m i j else 0)" if "j \<in> set [0..<m]" for j
      using kloop[OF \<open>i < m\<close>, of j] that by simp
    show "(\<Sum>j\<leftarrow>[0..<m]. if i' = i \<and> j' = j then product_entry A B m i j else 0) =
        (if i' = i then product_entry A B m i j' else 0)" if "j' < m" for i' j'
      using that by (simp add: sum_list_delta_and)
  qed
  show ?thesis unfolding naive_loops_def
  proof (rule adds_cong[OF adds_fold])
    show "adds m (fold (\<lambda>j. fold (\<lambda>k C. C[u32 (i * m + j) := C ! u32 (i * m + j) + A ! u32 (i * m + k) * B ! u32 (k * m + j)]) [0..<m]) [0..<m])
        (\<lambda>i' j'. if i' = i then product_entry A B m i j' else 0)" if "i \<in> set [0..<m]" for i
      using jloop[of i] that by simp
    show "(\<Sum>i\<leftarrow>[0..<m]. if i' = i then product_entry A B m i j' else 0) = product_entry A B m i' j'"
      if "i' < m" for i' j'
      using sum_list_delta_upt[of i' "\<lambda>i. product_entry A B m i j'" 0 m] that by simp
  qed
qed

subsection \<open>The blocks\<close>

lemma upt_four: "count + 4 \<le> bs \<Longrightarrow> [count..<bs] = count # (count + 1) # (count + 2) # (count + 3) # [count + 4..<bs]"
  by (simp add: upt_conv_Cons numeral_eq_Suc)

lemma upt_one: "count < bs \<Longrightarrow> [count..<bs] = count # [count + 1..<bs]"
  by (simp add: upt_conv_Cons)

lemma subblock_count_adds:
  assumes m: "m \<le> 65536" and blk: "ib + bs \<le> m" "jb + bs \<le> m" "kb + bs \<le> m"
    and rc: "row < bs" "col < bs"
  shows "adds m (subblock_count A (ib * m + kb) B (kb * m + jb) (ib * m + jb) bs m row col count)
     (\<lambda>i j. if i = ib + row \<and> j = jb + col
             then (\<Sum>c\<leftarrow>[count..<bs]. A ! (i * m + (kb + c)) * B ! ((kb + c) * m + j)) else 0)"
proof (induction "bs - count" arbitrary: count rule: less_induct)
  case less
  let ?a = "\<lambda>i k. A ! (i * m + k)" and ?b = "\<lambda>k j. B ! (k * m + j)"
  let ?f = "subblock_count A (ib * m + kb) B (kb * m + jb) (ib * m + jb) bs m row col"
  let ?cell = "(ib + row) * m + (jb + col)"
  let ?S = "\<lambda>n i j. \<Sum>c\<leftarrow>[n..<bs]. ?a i (kb + c) * ?b (kb + c) j"
  have lt: "row < m" "col < m" "ib + row < m" "jb + col < m" using blk rc by simp_all
  have idx: "ib * m + jb + u32 (row * m + col) = ?cell"
    using lt m by (simp add: add_mult_distrib)
  have a0: "A ! (ib * m + kb + u32 (row * m + t)) = ?a (ib + row) (kb + t)" if "t < bs" for t
  proof -
    have "t < m" using that blk by simp
    then have "u32 (row * m + t) = row * m + t" using lt m by simp
    then show ?thesis by (simp add: add_mult_distrib add_ac)
  qed
  have b0: "B ! (kb * m + jb + u32 (t * m + col)) = ?b (kb + t) (jb + col)" if "t < bs" for t
  proof -
    have "t < m" using that blk by simp
    then have "u32 (t * m + col) = t * m + col" using lt m by simp
    then show ?thesis by (simp add: add_mult_distrib add_ac)
  qed
  show ?case
  proof (cases "count < bs")
    case False
    then have "?f count = (\<lambda>C. C)"
      by (intro ext) (simp add: subblock_count.simps[of _ _ _ _ _ _ _ _ _ count])
    moreover have "bs \<le> count" using False by simp
    ultimately show ?thesis by (simp add: adds_def)
  next
    case True
    show ?thesis
    proof (cases "count + 4 < bs")
      case four: True
      let ?v = "?a (ib + row) (kb + count) * ?b (kb + count) (jb + col)
          + ?a (ib + row) (kb + (count + 1)) * ?b (kb + (count + 1)) (jb + col)
          + ?a (ib + row) (kb + (count + 2)) * ?b (kb + (count + 2)) (jb + col)
          + ?a (ib + row) (kb + (count + 3)) * ?b (kb + (count + 3)) (jb + col)"
      have av: "A ! (ib * m + kb + u32 (row * m + count)) = ?a (ib + row) (kb + count)"
        "A ! (ib * m + kb + u32 (row * m + count + 1)) = ?a (ib + row) (kb + (count + 1))"
        "A ! (ib * m + kb + u32 (row * m + count + 2)) = ?a (ib + row) (kb + (count + 2))"
        "A ! (ib * m + kb + u32 (row * m + count + 3)) = ?a (ib + row) (kb + (count + 3))"
        using four a0[of count] a0[of "count + 1"] a0[of "count + 2"] a0[of "count + 3"]
        by (simp_all add: add.assoc)
      have bv: "B ! (kb * m + jb + u32 (count * m + col)) = ?b (kb + count) (jb + col)"
        "B ! (kb * m + jb + u32 ((count + 1) * m + col)) = ?b (kb + (count + 1)) (jb + col)"
        "B ! (kb * m + jb + u32 ((count + 2) * m + col)) = ?b (kb + (count + 2)) (jb + col)"
        "B ! (kb * m + jb + u32 ((count + 3) * m + col)) = ?b (kb + (count + 3)) (jb + col)"
        using four b0[of count] b0[of "count + 1"] b0[of "count + 2"] b0[of "count + 3"]
        by simp_all
      have c: "count < bs" "count + 4 < bs" using four by simp_all
      have eq: "?f count = (\<lambda>C. ?f (count + 4) (C[?cell := C ! ?cell + ?v]))"
        by (intro ext, subst subblock_count.simps) (simp only: c if_True idx av bv)
      have ih: "adds m (?f (count + 4))
          (\<lambda>i j. if i = ib + row \<and> j = jb + col then ?S (count + 4) i j else 0)"
        using less[of "count + 4"] four by simp
      show ?thesis unfolding eq
      proof (rule adds_cong[OF adds_comp[OF adds_update[OF lt(3,4), of ?v] ih]])
        show "(if i = ib + row \<and> j = jb + col then ?v else 0)
            + (if i = ib + row \<and> j = jb + col then ?S (count + 4) i j else 0)
            = (if i = ib + row \<and> j = jb + col then ?S count i j else 0)" for i j
          using upt_four[of count bs] four by simp
      qed
    next
      case one: False
      let ?v = "?a (ib + row) (kb + count) * ?b (kb + count) (jb + col)"
      have eq: "?f count = (\<lambda>C. ?f (count + 1) (C[?cell := C ! ?cell + ?v]))"
        by (intro ext, subst subblock_count.simps)
           (simp only: True one if_True if_False idx a0[OF True] b0[OF True])
      have ih: "adds m (?f (count + 1))
          (\<lambda>i j. if i = ib + row \<and> j = jb + col then ?S (count + 1) i j else 0)"
        using less[of "count + 1"] True by simp
      show ?thesis unfolding eq
      proof (rule adds_cong[OF adds_comp[OF adds_update[OF lt(3,4), of ?v] ih]])
        show "(if i = ib + row \<and> j = jb + col then ?v else 0)
            + (if i = ib + row \<and> j = jb + col then ?S (count + 1) i j else 0)
            = (if i = ib + row \<and> j = jb + col then ?S count i j else 0)" for i j
          using upt_one[of count bs] True by simp
      qed
    qed
  qed
qed

lemma subblock_adds:
  assumes m: "m \<le> 65536" and blk: "ib + bs \<le> m" "jb + bs \<le> m" "kb + bs \<le> m"
  shows "adds m (matrix_multiplication_subblock A (ib * m + kb) B (kb * m + jb) (ib * m + jb) bs m)
     (\<lambda>i j. if (ib \<le> i \<and> i < ib + bs) \<and> (jb \<le> j \<and> j < jb + bs)
             then (\<Sum>c\<leftarrow>[0..<bs]. A ! (i * m + (kb + c)) * B ! ((kb + c) * m + j)) else 0)"
proof -
  let ?S = "\<lambda>i j. \<Sum>c\<leftarrow>[0..<bs]. A ! (i * m + (kb + c)) * B ! ((kb + c) * m + j)"
  let ?f = "subblock_count A (ib * m + kb) B (kb * m + jb) (ib * m + jb) bs m"
  have rows: "adds m (fold (\<lambda>row. ?f row col 0) [0..<bs])
      (\<lambda>i j. if j = jb + col \<and> (ib \<le> i \<and> i < ib + bs) then ?S i j else 0)"
    if "col < bs" for col
  proof (rule adds_cong[OF adds_fold])
    show "adds m (?f row col 0) (\<lambda>i j. if i = ib + row \<and> j = jb + col then ?S i j else 0)"
      if "row \<in> set [0..<bs]" for row
      using subblock_count_adds[OF m blk _ \<open>col < bs\<close>, of row A B 0] that by simp
    show "(\<Sum>row\<leftarrow>[0..<bs]. if i = ib + row \<and> j = jb + col then ?S i j else 0)
        = (if j = jb + col \<and> (ib \<le> i \<and> i < ib + bs) then ?S i j else 0)" for i j
      using sum_list_shift_delta_and[of "j = jb + col" i ib "?S i j" bs]
      by (simp add: conj_commute)
  qed
  show ?thesis unfolding matrix_multiplication_subblock_def
  proof (rule adds_cong[OF adds_fold])
    show "adds m (fold (\<lambda>row. ?f row col 0) [0..<bs])
        (\<lambda>i j. if j = jb + col \<and> (ib \<le> i \<and> i < ib + bs) then ?S i j else 0)"
      if "col \<in> set [0..<bs]" for col
      using rows[of col] that by simp
    show "(\<Sum>col\<leftarrow>[0..<bs]. if j = jb + col \<and> (ib \<le> i \<and> i < ib + bs) then ?S i j else 0)
        = (if (ib \<le> i \<and> i < ib + bs) \<and> (jb \<le> j \<and> j < jb + bs) then ?S i j else 0)" for i j
      using sum_list_shift_delta_and[of "ib \<le> i \<and> i < ib + bs" j jb "?S i j" bs]
      by (simp add: conj_commute)
  qed
qed

lemma blocked_loops_adds:
  assumes m: "m \<le> 65536" and bs: "0 < bs" "bs dvd m"
  shows "adds m (blocked_loops A B m bs) (product_entry A B m)"
proof -
  let ?g = "\<lambda>i j k. A ! (i * m + k) * B ! (k * m + j)"
  let ?sub = "\<lambda>j i k. matrix_multiplication_subblock A (u32 (i * m + k)) B (u32 (k * m + j))
               (u32 (i * m + j)) bs m"
  have mem: "b + bs \<le> m \<and> b < m" if "b \<in> set (steps 0 bs m)" for b
    using steps_bound[of bs 0 m b] steps_less[of b 0 bs m] that bs by simp
  have sub: "adds m (?sub jb ib kb)
      (\<lambda>i j. if (ib \<le> i \<and> i < ib + bs) \<and> (jb \<le> j \<and> j < jb + bs)
              then (\<Sum>c\<leftarrow>[0..<bs]. ?g i j (kb + c)) else 0)"
    if "ib \<in> set (steps 0 bs m)" "jb \<in> set (steps 0 bs m)" "kb \<in> set (steps 0 bs m)" for ib jb kb
    using subblock_adds[OF m, of ib bs jb kb A B] mem[OF that(1)] mem[OF that(2)] mem[OF that(3)] m
    by simp
  have kloop: "adds m (fold (?sub jb ib) (steps 0 bs m))
      (\<lambda>i j. if (ib \<le> i \<and> i < ib + bs) \<and> (jb \<le> j \<and> j < jb + bs)
              then product_entry A B m i j else 0)"
    if "ib \<in> set (steps 0 bs m)" "jb \<in> set (steps 0 bs m)" for ib jb
  proof (rule adds_cong[OF adds_fold])
    show "adds m (?sub jb ib kb)
        (\<lambda>i j. if (ib \<le> i \<and> i < ib + bs) \<and> (jb \<le> j \<and> j < jb + bs)
                then (\<Sum>c\<leftarrow>[0..<bs]. ?g i j (kb + c)) else 0)"
      if "kb \<in> set (steps 0 bs m)" for kb
      by (rule sub[OF \<open>ib \<in> set (steps 0 bs m)\<close> \<open>jb \<in> set (steps 0 bs m)\<close> that])
    show "(\<Sum>kb\<leftarrow>steps 0 bs m. if (ib \<le> i \<and> i < ib + bs) \<and> (jb \<le> j \<and> j < jb + bs)
                then (\<Sum>c\<leftarrow>[0..<bs]. ?g i j (kb + c)) else 0)
        = (if (ib \<le> i \<and> i < ib + bs) \<and> (jb \<le> j \<and> j < jb + bs)
           then product_entry A B m i j else 0)" for i j
      unfolding sum_list_if_const
      using steps_partition[of bs 0 m "?g i j"] bs
      by (simp add: product_entry_def interv_sum_list_conv_sum_set_nat atLeast0LessThan)
  qed
  have iloop: "adds m (fold (\<lambda>i. fold (?sub jb i) (steps 0 bs m)) (steps 0 bs m))
      (\<lambda>i j. if jb \<le> j \<and> j < jb + bs then product_entry A B m i j else 0)"
    if "jb \<in> set (steps 0 bs m)" for jb
  proof (rule adds_cong[OF adds_fold])
    show "adds m (fold (?sub jb ib) (steps 0 bs m))
        (\<lambda>i j. if (ib \<le> i \<and> i < ib + bs) \<and> (jb \<le> j \<and> j < jb + bs)
                then product_entry A B m i j else 0)"
      if "ib \<in> set (steps 0 bs m)" for ib
      by (rule kloop[OF that \<open>jb \<in> set (steps 0 bs m)\<close>])
    show "(\<Sum>ib\<leftarrow>steps 0 bs m. if (ib \<le> i \<and> i < ib + bs) \<and> (jb \<le> j \<and> j < jb + bs)
                then product_entry A B m i j else 0)
        = (if jb \<le> j \<and> j < jb + bs then product_entry A B m i j else 0)" if "i < m" for i j
      unfolding sum_list_if_and
      using steps_unique_block[OF bs that, of "product_entry A B m i j"] by simp
  qed
  show ?thesis unfolding blocked_loops_def
  proof (rule adds_cong[OF adds_fold])
    show "adds m (fold (\<lambda>i. fold (?sub jb i) (steps 0 bs m)) (steps 0 bs m))
        (\<lambda>i j. if jb \<le> j \<and> j < jb + bs then product_entry A B m i j else 0)"
      if "jb \<in> set (steps 0 bs m)" for jb
      by (rule iloop[OF that])
    show "(\<Sum>jb\<leftarrow>steps 0 bs m. if jb \<le> j \<and> j < jb + bs then product_entry A B m i j else 0)
        = product_entry A B m i j" if "j < m" for i j
      by (rule steps_unique_block[OF bs that])
  qed
qed

subsection \<open>The loops of matrix_mul4.cc\<close>

lemma mul4_loops_adds:
  assumes m: "m \<le> 65536" and bs: "0 < bs"
  shows "adds m
     (fold (\<lambda>kk. fold (\<lambda>jj. fold (\<lambda>i. fold (\<lambda>k. fold (\<lambda>j C.
                 C[u32 (m * i + j) := C ! u32 (m * i + j) + A ! u32 (m * i + k) * B ! u32 (m * k + j)])
               [jj..<min m (jj + bs)]) [kk..<min m (kk + bs)]) [0..<m]) (steps 0 bs m)) (steps 0 bs m))
     (product_entry A B m)"
proof -
  let ?g = "\<lambda>i j k. A ! (i * m + k) * B ! (k * m + j)"
  let ?upd = "\<lambda>i k j C. C[u32 (m * i + j) := C ! u32 (m * i + j) + A ! u32 (m * i + k) * B ! u32 (m * k + j)]"
  let ?J = "\<lambda>jj j. jj \<le> j \<and> j < min m (jj + bs)"
  let ?T = "\<lambda>kk i j. \<Sum>k\<leftarrow>[kk..<min m (kk + bs)]. ?g i j k"
  have inner: "adds m (?upd i k j) (\<lambda>i' j'. if i' = i \<and> j' = j then ?g i j k else 0)"
    if "i < m" "j < m" "k < m" for i j k
    using adds_update[OF that(1,2), of "?g i j k"] that m by simp
  have jloop: "adds m (fold (?upd i k) [jj..<min m (jj + bs)])
      (\<lambda>i' j'. if ?J jj j' \<and> i' = i then ?g i j' k else 0)"
    if "i < m" "k < m" for i k jj
  proof (rule adds_cong[OF adds_fold])
    show "adds m (?upd i k j) (\<lambda>i' j'. if i' = i \<and> j' = j then ?g i j k else 0)"
      if "j \<in> set [jj..<min m (jj + bs)]" for j
      using inner[OF \<open>i < m\<close> _ \<open>k < m\<close>, of j] that by simp
    show "(\<Sum>j\<leftarrow>[jj..<min m (jj + bs)]. if i' = i \<and> j' = j then ?g i j k else 0)
        = (if ?J jj j' \<and> i' = i then ?g i j' k else 0)" for i' j'
      using sum_list_delta_and[of "i' = i" j' "\<lambda>j. ?g i j k" jj "min m (jj + bs)"]
      by (simp add: conj_commute)
  qed
  have kloop: "adds m (fold (\<lambda>k. fold (?upd i k) [jj..<min m (jj + bs)]) [kk..<min m (kk + bs)])
      (\<lambda>i' j'. if ?J jj j' \<and> i' = i then ?T kk i j' else 0)"
    if "i < m" for i jj kk
  proof (rule adds_cong[OF adds_fold])
    show "adds m (fold (?upd i k) [jj..<min m (jj + bs)])
        (\<lambda>i' j'. if ?J jj j' \<and> i' = i then ?g i j' k else 0)"
      if "k \<in> set [kk..<min m (kk + bs)]" for k
      using jloop[OF \<open>i < m\<close>, of k jj] that by simp
    show "(\<Sum>k\<leftarrow>[kk..<min m (kk + bs)]. if ?J jj j' \<and> i' = i then ?g i j' k else 0)
        = (if ?J jj j' \<and> i' = i then ?T kk i j' else 0)" for i' j'
      unfolding sum_list_if_const ..
  qed
  have iloop: "adds m (fold (\<lambda>i. fold (\<lambda>k. fold (?upd i k) [jj..<min m (jj + bs)]) [kk..<min m (kk + bs)]) [0..<m])
      (\<lambda>i' j'. if ?J jj j' then ?T kk i' j' else 0)" for jj kk
  proof (rule adds_cong[OF adds_fold])
    show "adds m (fold (\<lambda>k. fold (?upd i k) [jj..<min m (jj + bs)]) [kk..<min m (kk + bs)])
        (\<lambda>i' j'. if ?J jj j' \<and> i' = i then ?T kk i j' else 0)"
      if "i \<in> set [0..<m]" for i
      using kloop[of i jj kk] that by simp
    show "(\<Sum>i\<leftarrow>[0..<m]. if ?J jj j' \<and> i' = i then ?T kk i j' else 0)
        = (if ?J jj j' then ?T kk i' j' else 0)" if "i' < m" for i' j'
      using sum_list_delta_and[of "?J jj j'" i' "\<lambda>i. ?T kk i j'" 0 m] that by simp
  qed
  have jjloop: "adds m (fold (\<lambda>jj. fold (\<lambda>i. fold (\<lambda>k. fold (?upd i k) [jj..<min m (jj + bs)]) [kk..<min m (kk + bs)]) [0..<m]) (steps 0 bs m))
      (\<lambda>i' j'. ?T kk i' j')" for kk
  proof (rule adds_cong[OF adds_fold])
    show "adds m (fold (\<lambda>i. fold (\<lambda>k. fold (?upd i k) [jj..<min m (jj + bs)]) [kk..<min m (kk + bs)]) [0..<m])
        (\<lambda>i' j'. if ?J jj j' then ?T kk i' j' else 0)" for jj
      by (rule iloop)
    show "(\<Sum>jj\<leftarrow>steps 0 bs m. if ?J jj j' then ?T kk i' j' else 0) = ?T kk i' j'" if "j' < m" for i' j'
      by (rule steps_unique_block_min[OF bs that])
  qed
  show ?thesis
  proof (rule adds_cong[OF adds_fold])
    show "adds m (fold (\<lambda>jj. fold (\<lambda>i. fold (\<lambda>k. fold (?upd i k) [jj..<min m (jj + bs)]) [kk..<min m (kk + bs)]) [0..<m]) (steps 0 bs m))
        (\<lambda>i' j'. ?T kk i' j')" for kk
      by (rule jjloop)
    show "(\<Sum>kk\<leftarrow>steps 0 bs m. ?T kk i' j') = product_entry A B m i' j'" for i' j'
      using steps_partition_min[OF bs, of 0 m "?g i' j'"]
      by (simp add: product_entry_def interv_sum_list_conv_sum_set_nat atLeast0LessThan)
  qed
qed

subsection \<open>The results\<close>

lemma memset0_all: "length C = n \<Longrightarrow> memset0 n C = replicate n 0"
  by (simp add: memset0_def)

lemma adds_zero_product:
  assumes "adds m f (product_entry A B m)"
  shows "f (replicate (m * m) 0) = matrix_product A B m"
proof (rule nth_equalityI)
  have l: "length (f (replicate (m * m) 0)) = m * m"
    by (rule adds_length[OF assms]) simp
  then show "length (f (replicate (m * m) 0)) = length (matrix_product A B m)"
    by (simp add: matrix_product_def)
  fix p assume "p < length (f (replicate (m * m) 0))"
  then have p: "p < m * m" using l by simp
  then have "0 < m" by (cases m) simp_all
  have dm: "p div m < m" "p mod m < m" using p \<open>0 < m\<close> by (simp_all add: less_mult_imp_div_less)
  have "f (replicate (m * m) 0) ! (p div m * m + p mod m) =
      replicate (m * m) 0 ! (p div m * m + p mod m) + product_entry A B m (p div m) (p mod m)"
    by (rule adds_nth[OF assms _ dm]) simp
  then show "f (replicate (m * m) 0) ! p = matrix_product A B m ! p"
    using p by (simp add: matrix_product_def)
qed

lemma square_bound: "n < (65536::nat) \<Longrightarrow> n * n < 4294967296"
proof -
  assume "n < 65536"
  then have "n * n \<le> 65535 * 65535" by (intro mult_le_mono) simp_all
  then show ?thesis by simp
qed

lemma matrix_multiplication_product:
  assumes "n \<le> 65536" and "length C = n * n"
  shows "matrix_multiplication A B C n = matrix_product A B n"
    and "blocked_loops A B n (blk_search n 128) (memset0 (n * n) C)
        = naive_loops A B n (memset0 (n * n) C)"
proof -
  have z: "memset0 (n * n) C = replicate (n * n) 0" by (rule memset0_all[OF assms(2)])
  have b: "0 < blk_search n 128" "blk_search n 128 dvd n"
    using blk_search_divides[of 128 n] by simp_all
  have naive: "naive_loops A B n (replicate (n * n) 0) = matrix_product A B n"
    by (rule adds_zero_product[OF naive_loops_adds[OF assms(1)]])
  have blocked: "blocked_loops A B n (blk_search n 128) (replicate (n * n) 0) = matrix_product A B n"
    by (rule adds_zero_product[OF blocked_loops_adds[OF assms(1) b]])
  show "matrix_multiplication A B C n = matrix_product A B n"
    using naive blocked z by (simp add: matrix_multiplication_def Let_def)
  show "blocked_loops A B n (blk_search n 128) (memset0 (n * n) C)
        = naive_loops A B n (memset0 (n * n) C)"
    using naive blocked z by simp
qed

lemma matrix_multiplication_mul4_product:
  assumes "n < 65536" and "length C = n * n"
  shows "matrix_multiplication_mul4 A B C n = matrix_product A B n"
proof -
  have z: "memset0 (n * n) C = replicate (n * n) 0" by (rule memset0_all[OF assms(2)])
  have le: "n \<le> 65536" using assms(1) by simp
  have "u32 (n * n) = n * n" using square_bound[OF assms(1)] by (simp add: u32_def)
  then show ?thesis
    using adds_zero_product[OF mul4_loops_adds[OF le, of 64 A B]] z
    by (simp add: matrix_multiplication_mul4_def)
qed

text \<open>
  For a dimension below 65536 and arrays of \<open>dimension * dimension\<close> entries, over
  exact arithmetic both functions return the array of the entries
  \<open>sum over k of A[i][k] * B[k][j]\<close>, whatever the result buffer held, and the loops over
  the blocks give what the triple loop gives.
\<close>

theorem matrix_variants_compute_product:
  assumes "n < 65536"
    and "length A = n * n" and "length B = n * n" and "length C = n * n"
  shows "matrix_multiplication A B C n = matrix_product A B n
    \<and> matrix_multiplication_mul4 A B C n = matrix_product A B n
    \<and> blocked_loops A B n (blk_search n 128) (memset0 (n * n) C)
        = naive_loops A B n (memset0 (n * n) C)"
proof -
  have le: "n \<le> 65536" using assms(1) by simp
  show ?thesis
    using matrix_multiplication_product[OF le assms(4), of A B]
      matrix_multiplication_mul4_product[OF assms(1,4), of A B]
    by simp
qed

theorem matrix_variants_compute_product_witness:
  "(2::nat) < 65536 \<and> length [1, 2, 3, 4 :: real] = 2 * 2 \<and> length [5, 6, 7, 8 :: real] = 2 * 2
   \<and> length [9, 9, 9, 9 :: real] = 2 * 2
   \<and> matrix_multiplication [1, 2, 3, 4] [5, 6, 7, 8] [9, 9, 9, 9] 2 = [19, 22, 43, 50]
   \<and> matrix_multiplication_mul4 [1, 2, 3, 4] [5, 6, 7, 8] [9, 9, 9, 9] 2 = [19, 22, 43, 50]
   \<and> (256::nat) < 65536 \<and> length (replicate 65536 (1::real)) = 256 * 256
   \<and> matrix_multiplication (replicate 65536 1) (replicate 65536 1) (replicate 65536 7) 256
       = matrix_product (replicate 65536 1) (replicate 65536 1) 256"
proof -
  have "matrix_product [1, 2, 3, 4] [5, 6, 7, 8] 2 = [19, 22, 43, 50]"
    by code_simp
  with matrix_variants_compute_product[of 2 "[1, 2, 3, 4]" "[5, 6, 7, 8]" "[9, 9, 9, 9]"]
    matrix_variants_compute_product[of 256 "replicate 65536 1" "replicate 65536 1" "replicate 65536 7"]
  show ?thesis by simp
qed

subsection \<open>The dimension 65536\<close>

lemma fold_skip: "fold (\<lambda>x C. C) xs = (\<lambda>C. C)"
  by (induction xs) (simp_all add: comp_def)

lemma u32_less: "u32 x < 4294967296"
  by (simp add: u32_def)

lemma mul4_keeps_uncleared:
  assumes "u32 (d * d) = 0" and "4294967296 \<le> N"
  shows "matrix_multiplication_mul4 (replicate N 0) B C d = C"
proof -
  have "replicate N (0::real) ! u32 x = 0" for x
    using u32_less[of x] assms(2) by simp
  then have "(\<lambda>C. C[u32 (d * i + j) := C ! u32 (d * i + j) + replicate N 0 ! u32 (d * i + k) * B ! u32 (d * k + j)])
      = (\<lambda>C. C)" for i j k
    by (intro ext) simp
  then show ?thesis
    using assms(1) by (simp add: matrix_multiplication_mul4_def fold_skip memset0_def)
qed


text \<open>
  C9 fails on the code for the dimension 65536. In \<open>matrix_mul4.cc\<close> the size of the
  \<open>memset\<close> (line 35) starts with the \<open>unsigned int\<close> product \<open>65536 * 65536\<close>, which is
  0: nothing is cleared, and for matrices of zeros the result buffer keeps its prior
  contents, where every entry of the product is 0. \<open>matrix_mul.cpp\<close> computes the size
  in \<open>size_t\<close> and returns the product.
\<close>

theorem mul4_keeps_prior_contents:
  "length (replicate 4294967296 (0::real)) = 65536 * 65536
   \<and> matrix_multiplication_mul4 (replicate 4294967296 0) (replicate 4294967296 0)
        (replicate 4294967296 1) 65536 ! 0 = 1
   \<and> matrix_product (replicate 4294967296 0) (replicate 4294967296 0) 65536 ! 0 = 0
   \<and> matrix_multiplication (replicate 4294967296 0) (replicate 4294967296 0)
        (replicate 4294967296 1) 65536
       = matrix_product (replicate 4294967296 0) (replicate 4294967296 0) 65536"
proof -
  have "u32 (65536 * 65536) = 0" by (simp add: u32_def)
  then have "matrix_multiplication_mul4 (replicate 4294967296 0) (replicate 4294967296 0)
        (replicate 4294967296 1) 65536 = replicate 4294967296 1"
    by (rule mul4_keeps_uncleared) simp
  moreover have "product_entry (replicate 4294967296 0) (replicate 4294967296 0) 65536 0 0 = 0"
    unfolding product_entry_def by (rule sum.neutral) simp
  moreover have "matrix_multiplication (replicate 4294967296 0) (replicate 4294967296 0)
        (replicate 4294967296 1) 65536
       = matrix_product (replicate 4294967296 0) (replicate 4294967296 0) 65536"
    by (rule matrix_multiplication_product(1)) simp_all
  ultimately show ?thesis by (simp add: matrix_product_def)
qed

end
